theory Spec2Isabelle
  imports Main "HOL-Library.Multiset"
begin

section \<open>Data model (package models)\<close>

text \<open>
  Go's \<open>int\<close> has 64 bits here and its arithmetic wraps around. The model computes
  on the unbounded \<open>int\<close> and writes the wrap-around out (\<open>wrap64\<close>) at the two
  operations whose result can leave the 64-bit range when the requested quantity and
  the pack amounts are positive 64-bit values: the addition
  \<open>order.TotalItems += smallestPack.Amount\<close> of the residual addition and the
  subtraction \<open>order.TotalItems - requestedItems\<close> of \<open>CalculateOrder\<close>. On such
  inputs the other operations of the calculation yield numbers between 0 and the
  larger of the requested quantity and the largest pack amount, where wrapping
  changes nothing.
  A \<open>*Pack\<close> pointer is modelled by the pack it points to: the order lines only ever
  point to packs of the private copy made by \<open>getPacks\<close> or to packs freshly allocated
  by \<open>mergePack\<close>, never to a pack of the storage, and no pack is written to through
  an order line.
\<close>

record Pack =
  Amount :: int

record OrderPack =
  Quantity :: int
  Pack :: Pack

record Order =
  RequestedItems :: int
  OverpackedItems :: int
  TotalItems :: int
  Packs :: "OrderPack list"

section \<open>Storage (package storage)\<close>

text \<open>
  The four error values of the package, and \<open>Panic\<close> for a run-time panic of the Go
  program (integer division by zero, index or slice bound out of range).
\<close>

datatype error =
  ErrPackNotFound
  | ErrNoPacksAvailable
  | ErrPackExists
  | ErrSoftLimitReached
  | Panic

record PackStorage =
  packs :: "Pack list"
  orders :: "Order list"

definition NewPackStorage :: PackStorage where
  "NewPackStorage = \<lparr>packs = [], orders = []\<rparr>"

text \<open>
  Go's \<open>/\<close> truncates towards zero and \<open>%\<close> takes the sign of the dividend; both panic
  on a zero divisor, which every caller below checks before it divides.
\<close>

definition go_quo :: "int \<Rightarrow> int \<Rightarrow> int" where
  "go_quo a b = sgn a * sgn b * (\<bar>a\<bar> div \<bar>b\<bar>)"

definition go_rem :: "int \<Rightarrow> int \<Rightarrow> int" where
  "go_rem a b = a - b * go_quo a b"

text \<open>
  The value a 64-bit signed integer holds after an operation whose exact result
  is \<open>x\<close>: the representative of \<open>x\<close> modulo \<open>2^64\<close> between \<open>-2^63\<close> and \<open>2^63 - 1\<close>.
\<close>

definition wrap64 :: "int \<Rightarrow> int" where
  "wrap64 x = (x + 9223372036854775808) mod 18446744073709551616 - 9223372036854775808"

text \<open>
  \<open>resortPacks\<close>: \<open>sort.Slice\<close> with the comparison \<open>>\<close> on the amounts. A pack has no
  field but its amount, so the descending order determines the resulting list.
\<close>

definition resortPacks :: "PackStorage \<Rightarrow> PackStorage" where
  "resortPacks s = s\<lparr>packs := sort_key (\<lambda>p. - Amount p) (packs s)\<rparr>"

definition getPacks :: "PackStorage \<Rightarrow> Pack list" where
  "getPacks s = map (\<lambda>pack. \<lparr>Amount = Amount pack\<rparr>) (packs s)"

definition getOrders :: "PackStorage \<Rightarrow> Order list" where
  "getOrders s = orders s"

subsection \<open>The catalog mutators\<close>

text \<open>
  \<open>SoftLimit\<close> is a package variable (20, and the tests lower it); it is a parameter of
  every function that reads it. A mutator returns its error (\<open>None\<close> for \<open>nil\<close>) and
  the storage it leaves.
\<close>

definition AddPack :: "int \<Rightarrow> PackStorage \<Rightarrow> int \<Rightarrow> error option \<times> PackStorage" where
  "AddPack SoftLimit s amount =
     (if \<exists>p \<in> set (packs s). Amount p = amount then (None, s)
      else if int (length (packs s)) \<ge> SoftLimit then (Some ErrSoftLimitReached, s)
      else (None, resortPacks (s\<lparr>packs := packs s @ [\<lparr>Amount = amount\<rparr>]\<rparr>)))"

fun updateFirst :: "int \<Rightarrow> int \<Rightarrow> Pack list \<Rightarrow> Pack list option" where
  "updateFirst oldAmount newAmount [] = None"
| "updateFirst oldAmount newAmount (p # ps) =
     (if Amount p = oldAmount then Some (p\<lparr>Amount := newAmount\<rparr> # ps)
      else map_option ((#) p) (updateFirst oldAmount newAmount ps))"

definition UpdatePack :: "PackStorage \<Rightarrow> int \<Rightarrow> int \<Rightarrow> error option \<times> PackStorage" where
  "UpdatePack s oldAmount newAmount =
     (if \<exists>p \<in> set (packs s). Amount p = newAmount then (Some ErrPackExists, s)
      else (case updateFirst oldAmount newAmount (packs s) of
              Some ps \<Rightarrow> (None, resortPacks (s\<lparr>packs := ps\<rparr>))
            | None \<Rightarrow> (Some ErrPackNotFound, s)))"

fun deleteFirst :: "int \<Rightarrow> Pack list \<Rightarrow> Pack list option" where
  "deleteFirst amount [] = None"
| "deleteFirst amount (p # ps) =
     (if Amount p = amount then Some ps
      else map_option ((#) p) (deleteFirst amount ps))"

definition DeletePack :: "PackStorage \<Rightarrow> int \<Rightarrow> error option \<times> PackStorage" where
  "DeletePack s amount =
     (case deleteFirst amount (packs s) of
        Some ps \<Rightarrow> (None, s\<lparr>packs := ps\<rparr>)
      | None \<Rightarrow> (Some ErrPackNotFound, s))"

subsection \<open>Greedy fill and residual addition\<close>

fun useFullPacks_loop :: "Pack list \<Rightarrow> int \<Rightarrow> Order \<Rightarrow> error + (int \<times> Order)" where
  "useFullPacks_loop [] remainingItems order = Inr (remainingItems, order)"
| "useFullPacks_loop (pack # rest) remainingItems order =
     (if Amount pack \<le> remainingItems then
        (if Amount pack = 0 then Inl Panic
         else
           (let quantity = go_quo remainingItems (Amount pack) in
            if quantity > 0 then
              useFullPacks_loop rest (remainingItems - quantity * Amount pack)
                (order\<lparr>Packs := Packs order @ [\<lparr>Quantity = quantity, Pack = pack\<rparr>],
                       TotalItems := TotalItems order + quantity * Amount pack\<rparr>)
            else useFullPacks_loop rest remainingItems order))
      else useFullPacks_loop rest remainingItems order)"

definition useFullPacks :: "Pack list \<Rightarrow> Order \<Rightarrow> error + (int \<times> Order)" where
  "useFullPacks packs' order = useFullPacks_loop packs' (RequestedItems order) order"

definition addPackForRemainingItems :: "int \<Rightarrow> Pack list \<Rightarrow> Order \<Rightarrow> error + Order" where
  "addPackForRemainingItems remainingItems packs' order =
     (if remainingItems \<le> 0 then Inr order
      else if packs' = [] then Inl Panic
      else
        (let smallestPack = last packs' in
         Inr (order\<lparr>Packs := Packs order @ [\<lparr>Quantity = 1, Pack = smallestPack\<rparr>],
                    TotalItems := wrap64 (TotalItems order + Amount smallestPack)\<rparr>)))"

subsection \<open>Consolidation\<close>

definition getSortedPackSizes :: "Pack list \<Rightarrow> Pack list" where
  "getSortedPackSizes packs' = sort_key Amount packs'"

text \<open>
  \<open>mergePack\<close>. The first loop copies the lines and takes units away from the lines of
  \<open>fromSize\<close>; note that it subtracts from \<open>remainingToRemove\<close> the quantity of the
  line \<^emph>\<open>after\<close> the line has been decremented, as the source does. The second loop
  increments the first line of \<open>toSize\<close>, and \<open>None\<close> stands for \<open>found = false\<close>.
\<close>

fun removePacks :: "int \<Rightarrow> int \<Rightarrow> OrderPack list \<Rightarrow> OrderPack list" where
  "removePacks fromSize remainingToRemove [] = []"
| "removePacks fromSize remainingToRemove (p # ps) =
     (if Amount (Pack p) = fromSize then
        (if Quantity p > remainingToRemove then
           (let p' = p\<lparr>Quantity := Quantity p - remainingToRemove\<rparr> in
            p' # removePacks fromSize
                   (remainingToRemove - min remainingToRemove (Quantity p')) ps)
         else removePacks fromSize
                (remainingToRemove - min remainingToRemove (Quantity p)) ps)
      else p # removePacks fromSize remainingToRemove ps)"

fun incrementPack :: "int \<Rightarrow> OrderPack list \<Rightarrow> OrderPack list option" where
  "incrementPack toSize [] = None"
| "incrementPack toSize (p # ps) =
     (if Amount (Pack p) = toSize then Some (p\<lparr>Quantity := Quantity p + 1\<rparr> # ps)
      else map_option ((#) p) (incrementPack toSize ps))"

definition mergePack :: "Order \<Rightarrow> int \<Rightarrow> int \<Rightarrow> int \<Rightarrow> Order" where
  "mergePack order fromSize toSize quantity =
     (let newPacks = removePacks fromSize quantity (Packs order) in
      case incrementPack toSize newPacks of
        Some newPacks' \<Rightarrow> order\<lparr>Packs := newPacks'\<rparr>
      | None \<Rightarrow>
          order\<lparr>Packs := newPacks @ [\<lparr>Quantity = 1, Pack = \<lparr>Amount = toSize\<rparr>\<rparr>]\<rparr>)"

text \<open>
  \<open>sizeGroups\<close> is a Go map from pack size to summed quantity. It is kept as an
  association list with one entry per key; \<open>addGroup\<close> is \<open>sizeGroups[k] += q\<close>, a
  missing key reading as 0.
\<close>

type_synonym groups = "(int \<times> int) list"

fun addGroup :: "int \<Rightarrow> int \<Rightarrow> groups \<Rightarrow> groups" where
  "addGroup k q [] = [(k, q)]"
| "addGroup k q ((k', c) # m) =
     (if k' = k then (k', c + q) # m else (k', c) # addGroup k q m)"

definition sizeGroups :: "OrderPack list \<Rightarrow> groups" where
  "sizeGroups ops = foldl (\<lambda>m op. addGroup (Amount (Pack op)) (Quantity op) m) [] ops"

text \<open>
  Go enumerates a map in an order that the language leaves unspecified and that changes
  from one \<open>range\<close> statement to the next. The order is a parameter: \<open>scanGroups\<close> is the
  inner loop of \<open>tryMergeSameSizePacks\<close> over the entries in the order the run time
  delivers them, and an \<open>iteration\<close> gives, for the i-th round of \<open>mergePacks\<close> and the
  j-th target of that round, the order in which the map is delivered. It is admissible
  (\<open>iter_ok\<close>) when it delivers every entry of the map exactly once.
  The loop returns the size to merge, \<open>None\<close> when no entry qualifies.
\<close>

fun scanGroups :: "int \<Rightarrow> groups \<Rightarrow> error + int option" where
  "scanGroups target [] = Inr None"
| "scanGroups target ((sz, count') # es) =
     (if target \<le> sz then scanGroups target es
      else if sz = 0 then Inl Panic
      else if go_rem target sz = 0 \<and> count' \<ge> go_quo target sz then Inr (Some sz)
      else scanGroups target es)"

type_synonym iteration = "nat \<Rightarrow> nat \<Rightarrow> groups \<Rightarrow> groups"

definition iter_ok :: "iteration \<Rightarrow> bool" where
  "iter_ok \<rho> = (\<forall>i j g. mset (\<rho> i j g) = mset g)"

fun tryMergeSameSizePacks_loop ::
  "(nat \<Rightarrow> groups \<Rightarrow> groups) \<Rightarrow> nat \<Rightarrow> Pack list \<Rightarrow> groups \<Rightarrow> Order \<Rightarrow> error + (bool \<times> Order)"
where
  "tryMergeSameSizePacks_loop r j [] g order = Inr (False, order)"
| "tryMergeSameSizePacks_loop r j (targetPack # rest) g order =
     (case scanGroups (Amount targetPack) (r j g) of
        Inl e \<Rightarrow> Inl e
      | Inr (Some sz) \<Rightarrow>
          Inr (True, mergePack order sz (Amount targetPack) (go_quo (Amount targetPack) sz))
      | Inr None \<Rightarrow> tryMergeSameSizePacks_loop r (Suc j) rest g order)"

definition tryMergeSameSizePacks ::
  "(nat \<Rightarrow> groups \<Rightarrow> groups) \<Rightarrow> Pack list \<Rightarrow> Order \<Rightarrow> error + (bool \<times> Order)"
where
  "tryMergeSameSizePacks r availablePacks order =
     tryMergeSameSizePacks_loop r 0 availablePacks (sizeGroups (Packs order)) order"

fun scanOrderPacks :: "int \<Rightarrow> OrderPack list \<Rightarrow> error + int option" where
  "scanOrderPacks target [] = Inr None"
| "scanOrderPacks target (orderPack # ops) =
     (let smallSize = Amount (Pack orderPack) in
      if target \<le> smallSize then scanOrderPacks target ops
      else if smallSize = 0 then Inl Panic
      else if go_rem target smallSize = 0 \<and> Quantity orderPack \<ge> go_quo target smallSize
        then Inr (Some smallSize)
      else scanOrderPacks target ops)"

fun tryMergeDifferentSizePacks :: "Pack list \<Rightarrow> Order \<Rightarrow> error + Order" where
  "tryMergeDifferentSizePacks [] order = Inr order"
| "tryMergeDifferentSizePacks (targetPack # rest) order =
     (case scanOrderPacks (Amount targetPack) (Packs order) of
        Inl e \<Rightarrow> Inl e
      | Inr (Some smallSize) \<Rightarrow>
          Inr (mergePack order smallSize (Amount targetPack)
                 (go_quo (Amount targetPack) smallSize))
      | Inr None \<Rightarrow> tryMergeDifferentSizePacks rest order)"

fun mergePacks_loop :: "iteration \<Rightarrow> nat \<Rightarrow> nat \<Rightarrow> Pack list \<Rightarrow> Order \<Rightarrow> error + Order" where
  "mergePacks_loop \<rho> i 0 availablePacks order = Inr order"
| "mergePacks_loop \<rho> i (Suc n) availablePacks order =
     (case tryMergeSameSizePacks (\<rho> i) availablePacks order of
        Inl e \<Rightarrow> Inl e
      | Inr (merged, order') \<Rightarrow>
          if merged then mergePacks_loop \<rho> (Suc i) n availablePacks order'
          else
            (case tryMergeDifferentSizePacks availablePacks order' of
               Inl e \<Rightarrow> Inl e
             | Inr order'' \<Rightarrow> mergePacks_loop \<rho> (Suc i) n availablePacks order''))"

definition mergePacks :: "iteration \<Rightarrow> Pack list \<Rightarrow> Order \<Rightarrow> error + Order" where
  "mergePacks \<rho> packs' order =
     (let availablePacks = getSortedPackSizes packs' in
      mergePacks_loop \<rho> 0 (length availablePacks) availablePacks order)"

subsection \<open>CalculateOrder\<close>

text \<open>
  The result is the error or the order, and the storage the call leaves; on the error
  path Go returns the zero \<open>Order\<close> beside the error. The slice expression
  \<open>s.orders[low:]\<close> panics unless \<open>0 \<le> low \<le> len(s.orders)\<close>.
\<close>

definition appendOrder :: "int \<Rightarrow> PackStorage \<Rightarrow> Order \<Rightarrow> error + PackStorage" where
  "appendOrder SoftLimit s order =
     (if int (length (orders s)) \<ge> SoftLimit then
        (let low = int (length (orders s)) - (SoftLimit - 1) in
         if low < 0 \<or> low > int (length (orders s)) then Inl Panic
         else Inr (s\<lparr>orders := drop (nat low) (orders s) @ [order]\<rparr>))
      else Inr (s\<lparr>orders := orders s @ [order]\<rparr>))"

definition CalculateOrder ::
  "iteration \<Rightarrow> int \<Rightarrow> PackStorage \<Rightarrow> int \<Rightarrow> (error + Order) \<times> PackStorage"
where
  "CalculateOrder \<rho> SoftLimit s requestedItems =
     (if length (packs s) = 0 then (Inl ErrNoPacksAvailable, s)
      else
        (let s1 = resortPacks s;
             packs' = getPacks s1;
             order0 = \<lparr>RequestedItems = requestedItems, OverpackedItems = 0,
                       TotalItems = 0, Packs = []\<rparr>
         in case useFullPacks packs' order0 of
              Inl e \<Rightarrow> (Inl e, s1)
            | Inr (remainingItems, order1) \<Rightarrow>
                (case addPackForRemainingItems remainingItems packs' order1 of
                   Inl e \<Rightarrow> (Inl e, s1)
                 | Inr order2 \<Rightarrow>
                     (let order3 =
                        order2\<lparr>OverpackedItems := wrap64 (TotalItems order2 - requestedItems)\<rparr>
                      in case mergePacks \<rho> packs' order3 of
                           Inl e \<Rightarrow> (Inl e, s1)
                         | Inr order4 \<Rightarrow>
                             (case appendOrder SoftLimit s1 order4 of
                                Inl e \<Rightarrow> (Inl e, s1)
                              | Inr s2 \<Rightarrow> (Inr order4, s2))))))"

section \<open>Definitions for the statements\<close>

text \<open>
  The invariant of the stored catalog: the amounts are pairwise distinct, strictly
  descending, and there are at most \<open>SoftLimit\<close> of them.
\<close>

definition catalog_inv :: "int \<Rightarrow> PackStorage \<Rightarrow> bool" where
  "catalog_inv SoftLimit s =
     (distinct (map Amount (packs s)) \<and> sorted_wrt (>) (map Amount (packs s)) \<and>
      int (length (packs s)) \<le> SoftLimit)"

text \<open>A sequence of calls of the three mutators, each leaving the storage to the next.\<close>

datatype mutation = Add int | Update int int | Delete int

fun mutate :: "int \<Rightarrow> PackStorage \<Rightarrow> mutation \<Rightarrow> PackStorage" where
  "mutate SoftLimit s (Add amount) = snd (AddPack SoftLimit s amount)"
| "mutate SoftLimit s (Update oldAmount newAmount) = snd (UpdatePack s oldAmount newAmount)"
| "mutate SoftLimit s (Delete amount) = snd (DeletePack s amount)"

text \<open>
  Greedy fill as the specification words it, on the bare sizes: for each size \<open>s\<close>,
  largest first, if \<open>s \<le> remaining\<close> take \<open>quantity = remaining \<div> s\<close> (integer
  division), and if the quantity is positive append the line and reduce the remaining
  quantity by \<open>quantity \<times> s\<close>. A line is a pair (quantity, size). This is the
  function \<open>useFullPacks\<close> is compared with.
\<close>

fun greedyFill :: "int list \<Rightarrow> int \<Rightarrow> (int \<times> int) list \<times> int" where
  "greedyFill [] remaining = ([], remaining)"
| "greedyFill (s # sizes) remaining =
     (if s \<le> remaining then
        (let quantity = remaining div s in
         if quantity > 0 then
           (let (lines, r) = greedyFill sizes (remaining - quantity * s)
            in ((quantity, s) # lines, r))
         else greedyFill sizes remaining)
      else greedyFill sizes remaining)"

text \<open>The order line of a pair, the items of a line, and the items of a list of lines.\<close>

definition orderLine :: "int \<times> int \<Rightarrow> OrderPack" where
  "orderLine l = \<lparr>Quantity = fst l, Pack = \<lparr>Amount = snd l\<rparr>\<rparr>"

definition lineItems :: "OrderPack \<Rightarrow> int" where
  "lineItems p = Quantity p * Amount (Pack p)"

definition sumItems :: "OrderPack list \<Rightarrow> int" where
  "sumItems ps = sum_list (map lineItems ps)"

text \<open>The pack sizes that occur on a list of lines.\<close>

definition lineSizes :: "OrderPack list \<Rightarrow> int set" where
  "lineSizes ls = (\<lambda>p. Amount (Pack p)) ` set ls"

text \<open>Two orders that differ at most in their lines.\<close>

definition sameFields :: "Order \<Rightarrow> Order \<Rightarrow> bool" where
  "sameFields a b = (RequestedItems a = RequestedItems b \<and>
     OverpackedItems a = OverpackedItems b \<and> TotalItems a = TotalItems b)"

text \<open>
  The catalog as \<open>CalculateOrder\<close> reads it after \<open>resortPacks\<close>, and the order it
  hands to \<open>mergePacks\<close>: the lines of greedy fill, the residual line when something
  remains, and the three counters, \<open>TotalItems\<close> after the 64-bit addition of the
  residual pack and \<open>OverpackedItems\<close> after the 64-bit subtraction.
\<close>

definition sortedPacks :: "PackStorage \<Rightarrow> Pack list" where
  "sortedPacks s = sort_key (\<lambda>p. - Amount p) (packs s)"

definition rawOrder :: "Pack list \<Rightarrow> int \<Rightarrow> Order" where
  "rawOrder ps R =
     (let (ls, r) = greedyFill (map Amount ps) R;
          extra = (if r > 0 then [(1, Amount (last ps))] else []);
          total = (if r > 0 then wrap64 (sumItems (map orderLine ls) + Amount (last ps))
                   else sumItems (map orderLine ls))
      in \<lparr>RequestedItems = R, OverpackedItems = wrap64 (total - R), TotalItems = total,
          Packs = map orderLine (ls @ extra)\<rparr>)"

text \<open>
  Several \<open>CalculateOrder\<close> calls in a row, each with the iteration orders of its own
  run; the result is the orders returned and the storage left, or the first error.
\<close>

fun calculateAll ::
  "int \<Rightarrow> PackStorage \<Rightarrow> (iteration \<times> int) list \<Rightarrow> error + (Order list \<times> PackStorage)"
where
  "calculateAll SoftLimit s [] = Inr ([], s)"
| "calculateAll SoftLimit s (req # reqs) =
     (case CalculateOrder (fst req) SoftLimit s (snd req) of
        (Inl e, s') \<Rightarrow> Inl e
      | (Inr ord, s') \<Rightarrow>
          (case calculateAll SoftLimit s' reqs of
             Inl e \<Rightarrow> Inl e
           | Inr (ords, s'') \<Rightarrow> Inr (ord # ords, s'')))"

text \<open>The order \<open>CalculateOrder\<close> starts from.\<close>

definition emptyOrder :: "int \<Rightarrow> Order" where
  "emptyOrder R = \<lparr>RequestedItems = R, OverpackedItems = 0, TotalItems = 0, Packs = []\<rparr>"

text \<open>
  For the examples: a storage with the given catalog and no history, and the run time
  that enumerates every map in the order of first insertion.
\<close>

definition storageOf :: "int list \<Rightarrow> PackStorage" where
  "storageOf amounts = \<lparr>packs = map (\<lambda>a. \<lparr>Amount = a\<rparr>) amounts, orders = []\<rparr>"

definition asStored :: iteration where
  "asStored = (\<lambda>i j g. g)"

text \<open>
  The summed quantity of the lines of one size, which is what \<open>sizeGroups\<close> stores under
  that size, and the test of the two merge loops on an entry (size, quantity) for a
  target: the entry is smaller than the target, divides it, and holds enough units.
\<close>

definition groupCount :: "OrderPack list \<Rightarrow> int \<Rightarrow> int" where
  "groupCount ls s = sum_list (map Quantity (filter (\<lambda>p. Amount (Pack p) = s) ls))"

definition qualifies :: "int \<Rightarrow> int \<times> int \<Rightarrow> bool" where
  "qualifies target e =
     (fst e < target \<and> go_rem target (fst e) = 0 \<and> go_quo target (fst e) \<le> snd e)"

text \<open>
  The invariant of the consolidation rounds on the orders \<open>CalculateOrder\<close> builds, for a
  set \<open>C\<close> of catalog amounts and one size \<open>h\<close>, the size that received a unit last:
  quantities and sizes are positive; the units of any other size amount to less than
  every larger catalog size; those of \<open>h\<close> to less than a larger catalog size plus \<open>h\<close>.
  \<open>hotTarget\<close> is the first target, in the order of the scan, for which the group of
  \<open>h\<close> qualifies.
\<close>

definition mergeInv :: "int set \<Rightarrow> int \<Rightarrow> OrderPack list \<Rightarrow> bool" where
  "mergeInv C h ls =
     ((\<forall>p \<in> set ls. 0 < Quantity p \<and> 0 < Amount (Pack p)) \<and>
      (\<forall>s \<in> lineSizes ls. \<forall>T \<in> C. s < T \<longrightarrow>
         groupCount ls s * s < (if s = h then T + h else T)))"

definition hotTarget :: "Pack list \<Rightarrow> int \<Rightarrow> OrderPack list \<Rightarrow> int option" where
  "hotTarget av h ls =
     (if h \<in> lineSizes ls
      then find (\<lambda>T. qualifies T (h, groupCount ls h)) (map Amount av) else None)"





section \<open>Proofs\<close>

subsection \<open>The example run time\<close>

lemma iter_ok_asStored: "iter_ok asStored"
  by (simp add: iter_ok_def asStored_def)

subsection \<open>The catalog mutators keep the catalog invariant\<close>

lemma strict_above_iff:
  "(\<forall>x\<in>set ps. Amount x < Amount a) =
     ((\<forall>x\<in>set ps. Amount x \<le> Amount a) \<and> Amount a \<notin> Amount ` set ps)"
  by (auto simp: less_le image_iff)

lemma strict_desc_iff:
  "sorted_wrt (>) (map Amount ps) \<longleftrightarrow>
     sorted (map (\<lambda>p. - Amount p) ps) \<and> distinct (map Amount ps)"
proof (induction ps)
  case Nil
  show ?case by simp
next
  case (Cons a ps)
  show ?case using Cons.IH strict_above_iff [of ps a] by auto
qed

lemma distinct_amounts_sort_key:
  "distinct (map Amount (sort_key f ps)) = distinct (map Amount ps)"
proof -
  have "mset (map Amount (sort_key f ps)) = mset (map Amount ps)"
    by simp
  then show ?thesis
    by (rule mset_eq_imp_distinct_iff)
qed

lemma resortPacks_inv:
  assumes "distinct (map Amount (packs s))" and "int (length (packs s)) \<le> L"
  shows "catalog_inv L (resortPacks s)"
  using assms
  by (simp add: catalog_inv_def resortPacks_def strict_desc_iff distinct_amounts_sort_key)

lemma updateFirst_props:
  "updateFirst a b ps = Some ps' \<Longrightarrow>
     length ps' = length ps \<and> set (map Amount ps') \<subseteq> insert b (set (map Amount ps)) \<and>
     (b \<notin> set (map Amount ps) \<longrightarrow> distinct (map Amount ps) \<longrightarrow> distinct (map Amount ps'))"
proof (induction ps arbitrary: ps')
  case Nil
  then show ?case by simp
next
  case (Cons p ps)
  show ?case
  proof (cases "Amount p = a")
    case True
    with Cons.prems show ?thesis by auto
  next
    case False
    with Cons.prems obtain qs where q: "updateFirst a b ps = Some qs" "ps' = p # qs"
      by auto
    from Cons.IH [OF q(1)] q(2) show ?thesis by auto
  qed
qed

lemma deleteFirst_props:
  "deleteFirst a ps = Some ps' \<Longrightarrow>
     length ps' < length ps \<and> set ps' \<subseteq> set ps \<and>
     (sorted_wrt (>) (map Amount ps) \<longrightarrow> sorted_wrt (>) (map Amount ps')) \<and>
     (distinct (map Amount ps) \<longrightarrow> distinct (map Amount ps'))"
proof (induction ps arbitrary: ps')
  case Nil
  then show ?case by simp
next
  case (Cons p ps)
  show ?case
  proof (cases "Amount p = a")
    case True
    with Cons.prems show ?thesis by auto
  next
    case False
    with Cons.prems obtain qs where q: "deleteFirst a ps = Some qs" "ps' = p # qs"
      by auto
    from Cons.IH [OF q(1)] q(2) show ?thesis by auto
  qed
qed

lemma AddPack_inv: "catalog_inv L s \<Longrightarrow> catalog_inv L (snd (AddPack L s a))"
proof -
  assume inv: "catalog_inv L s"
  show ?thesis
  proof (cases "\<exists>p \<in> set (packs s). Amount p = a")
    case True
    with inv show ?thesis by (simp add: AddPack_def)
  next
    case absent: False
    show ?thesis
    proof (cases "int (length (packs s)) \<ge> L")
      case True
      with inv absent show ?thesis by (simp add: AddPack_def)
    next
      case False
      let ?s' = "s\<lparr>packs := packs s @ [\<lparr>Amount = a\<rparr>]\<rparr>"
      from absent inv have "distinct (map Amount (packs ?s'))"
        by (auto simp: catalog_inv_def)
      moreover from False have "int (length (packs ?s')) \<le> L" by simp
      ultimately have "catalog_inv L (resortPacks ?s')" by (rule resortPacks_inv)
      with absent False show ?thesis by (simp add: AddPack_def)
    qed
  qed
qed

lemma UpdatePack_inv: "catalog_inv L s \<Longrightarrow> catalog_inv L (snd (UpdatePack s a b))"
proof -
  assume inv: "catalog_inv L s"
  show ?thesis
  proof (cases "\<exists>p \<in> set (packs s). Amount p = b")
    case True
    with inv show ?thesis by (simp add: UpdatePack_def)
  next
    case absent: False
    show ?thesis
    proof (cases "updateFirst a b (packs s)")
      case None
      with inv absent show ?thesis by (simp add: UpdatePack_def)
    next
      case (Some ps)
      from absent have nb: "b \<notin> set (map Amount (packs s))" by auto
      from updateFirst_props [OF Some] nb inv
      have "distinct (map Amount (packs (s\<lparr>packs := ps\<rparr>)))"
        and "int (length (packs (s\<lparr>packs := ps\<rparr>))) \<le> L"
        by (simp_all add: catalog_inv_def)
      then have "catalog_inv L (resortPacks (s\<lparr>packs := ps\<rparr>))" by (rule resortPacks_inv)
      with absent Some show ?thesis by (simp add: UpdatePack_def)
    qed
  qed
qed

lemma DeletePack_inv: "catalog_inv L s \<Longrightarrow> catalog_inv L (snd (DeletePack s a))"
proof -
  assume inv: "catalog_inv L s"
  show ?thesis
  proof (cases "deleteFirst a (packs s)")
    case None
    with inv show ?thesis by (simp add: DeletePack_def)
  next
    case (Some ps)
    from deleteFirst_props [OF Some] inv have "catalog_inv L (s\<lparr>packs := ps\<rparr>)"
      by (simp add: catalog_inv_def)
    with Some show ?thesis by (simp add: DeletePack_def)
  qed
qed

lemma mutate_inv: "catalog_inv L s \<Longrightarrow> catalog_inv L (mutate L s m)"
  by (cases m) (simp_all add: AddPack_inv UpdatePack_inv DeletePack_inv)

lemma foldl_mutate_inv: "catalog_inv L s \<Longrightarrow> catalog_inv L (foldl (mutate L) s ms)"
  by (induction ms arbitrary: s) (simp_all add: mutate_inv)

text \<open>
  Claim C10. Starting from the empty storage, after any sequence of \<open>AddPack\<close>,
  \<open>UpdatePack\<close> and \<open>DeletePack\<close> calls the stored amounts are pairwise
  distinct, strictly descending and at most \<open>SoftLimit\<close> many, and each of the three
  mutators preserves that invariant, whether it succeeds or returns an error.
\<close>

theorem catalog_invariant:
  assumes "0 \<le> SoftLimit"
  shows "catalog_inv SoftLimit (foldl (mutate SoftLimit) NewPackStorage ms) \<and>
         (catalog_inv SoftLimit s \<longrightarrow>
            catalog_inv SoftLimit (snd (AddPack SoftLimit s amount)) \<and>
            catalog_inv SoftLimit (snd (UpdatePack s oldAmount newAmount)) \<and>
            catalog_inv SoftLimit (snd (DeletePack s amount)))"
proof -
  from assms have "catalog_inv SoftLimit NewPackStorage"
    by (simp add: catalog_inv_def NewPackStorage_def)
  then have "catalog_inv SoftLimit (foldl (mutate SoftLimit) NewPackStorage ms)"
    by (rule foldl_mutate_inv)
  then show ?thesis
    by (simp add: AddPack_inv UpdatePack_inv DeletePack_inv)
qed

theorem catalog_invariant_witness:
  "(0::int) \<le> 2 \<and>
   map Amount (packs (foldl (mutate 2) NewPackStorage
      [Add 250, Add 1000, Add 500, Update 250 300, Delete 1000, Add 7])) = [300, 7] \<and>
   catalog_inv 2 (foldl (mutate 2) NewPackStorage
      [Add 250, Add 1000, Add 500, Update 250 300, Delete 1000, Add 7]) \<and>
   catalog_inv 2 (storageOf [500, 250]) \<and>
   catalog_inv 2 (snd (AddPack 2 (storageOf [500, 250]) 100)) \<and>
   catalog_inv 2 (snd (UpdatePack (storageOf [500, 250]) 250 1000)) \<and>
   catalog_inv 2 (snd (DeletePack (storageOf [500, 250]) 500))"
proof -
  have h: "(0::int) \<le> 2" by simp
  have i: "catalog_inv 2 (storageOf [500, 250])"
    by (simp add: catalog_inv_def storageOf_def)
  have e: "map Amount (packs (foldl (mutate 2) NewPackStorage
      [Add 250, Add 1000, Add 500, Update 250 300, Delete 1000, Add 7])) = [300, 7]"
    by code_simp
  from catalog_invariant [OF h, of "[Add 250, Add 1000, Add 500, Update 250 300, Delete 1000, Add 7]"
      "storageOf [500, 250]" 100 250 1000]
    catalog_invariant [OF h, of "[]" "storageOf [500, 250]" 500 250 1000]
    h i e
  show ?thesis by simp
qed

subsection \<open>Greedy fill refines its specification\<close>

lemma go_quo_pos: "0 \<le> a \<Longrightarrow> 0 < b \<Longrightarrow> go_quo a b = a div b"
  by (cases "a = 0") (simp_all add: go_quo_def)

lemma go_rem_pos: "0 \<le> a \<Longrightarrow> 0 < b \<Longrightarrow> go_rem a b = a mod b"
  by (simp add: go_rem_def go_quo_pos minus_mult_div_eq_mod)

lemma pack_eta: "\<lparr>Amount = Amount (p::Pack)\<rparr> = p"
  by simp

lemma useFullPacks_loop_greedy:
  "\<forall>p \<in> set ps. 0 < Amount p \<Longrightarrow>
   useFullPacks_loop ps r ord =
     Inr (snd (greedyFill (map Amount ps) r),
          ord\<lparr>Packs := Packs ord @ map orderLine (fst (greedyFill (map Amount ps) r)),
              TotalItems := TotalItems ord + sumItems (map orderLine (fst (greedyFill (map Amount ps) r)))\<rparr>)"
proof (induction ps arbitrary: r ord)
  case Nil
  show ?case by (simp add: sumItems_def)
next
  case (Cons p ps)
  then have pos: "0 < Amount p" and rest: "\<forall>p \<in> set ps. 0 < Amount p" by simp_all
  note IH = Cons.IH [OF rest]
  show ?case
  proof (cases "Amount p \<le> r")
    case False
    then show ?thesis by (simp add: IH)
  next
    case True
    with pos have r0: "0 \<le> r" by simp
    from True pos have q: "0 < r div Amount p"
      by (simp add: pos_imp_zdiv_pos_iff)
    obtain ls r' where g: "greedyFill (map Amount ps) (r - r div Amount p * Amount p) = (ls, r')"
      by (cases "greedyFill (map Amount ps) (r - r div Amount p * Amount p)")
    show ?thesis using True pos q g
      by (simp add: IH go_quo_pos [OF r0 pos] Let_def orderLine_def sumItems_def lineItems_def)
  qed
qed

subsection \<open>Consolidation returns and changes only the lines\<close>

lemma removePacks_sizes: "lineSizes (removePacks f n ls) \<subseteq> lineSizes ls"
  by (induction ls arbitrary: n) (auto simp: lineSizes_def Let_def)

lemma incrementPack_sizes:
  "incrementPack t ls = Some ls' \<Longrightarrow> lineSizes ls' = lineSizes ls"
proof (induction ls arbitrary: ls')
  case Nil
  then show ?case by simp
next
  case (Cons p ls)
  show ?case
  proof (cases "Amount (Pack p) = t")
    case True
    with Cons.prems show ?thesis by (auto simp: lineSizes_def)
  next
    case False
    with Cons.prems obtain qs where q: "incrementPack t ls = Some qs" "ls' = p # qs"
      by auto
    from Cons.IH [OF q(1)] q(2) show ?thesis by (simp add: lineSizes_def)
  qed
qed

lemma mergePack_frame:
  "RequestedItems (mergePack ord f t q) = RequestedItems ord"
  "OverpackedItems (mergePack ord f t q) = OverpackedItems ord"
  "TotalItems (mergePack ord f t q) = TotalItems ord"
  by (simp_all add: mergePack_def Let_def split: option.split)

lemma mergePack_sizes:
  "lineSizes (Packs (mergePack ord f t q)) \<subseteq> insert t (lineSizes (Packs ord))"
proof (cases "incrementPack t (removePacks f q (Packs ord))")
  case None
  then show ?thesis
    using removePacks_sizes [of f q "Packs ord"]
    by (auto simp: mergePack_def Let_def lineSizes_def)
next
  case (Some ls')
  then show ?thesis
    using removePacks_sizes [of f q "Packs ord"] incrementPack_sizes [OF Some]
    by (auto simp: mergePack_def Let_def)
qed

lemma addGroup_keys: "fst ` set (addGroup k q m) = insert k (fst ` set m)"
proof (induction m)
  case Nil
  show ?case by simp
next
  case (Cons e m)
  obtain k' c where e: "e = (k', c)" by (cases e)
  show ?case unfolding e using Cons.IH by (cases "k' = k") auto
qed

lemma foldl_addGroup_keys:
  "fst ` set (foldl (\<lambda>m op. addGroup (Amount (Pack op)) (Quantity op) m) m0 ls)
     = fst ` set m0 \<union> lineSizes ls"
  by (induction ls arbitrary: m0) (auto simp: addGroup_keys lineSizes_def)

lemma sizeGroups_keys: "fst ` set (sizeGroups ls) = lineSizes ls"
  by (simp add: sizeGroups_def foldl_addGroup_keys)

lemma scanGroups_total:
  "\<forall>e \<in> set es. fst e \<noteq> 0 \<Longrightarrow>
     scanGroups t es = Inr None \<or> (\<exists>sz \<in> fst ` set es. scanGroups t es = Inr (Some sz))"
proof (induction es)
  case Nil
  show ?case by simp
next
  case (Cons e es)
  obtain k c where e: "e = (k, c)" by (cases e)
  from Cons.prems have IH: "scanGroups t es = Inr None \<or> (\<exists>sz \<in> fst ` set es. scanGroups t es = Inr (Some sz))"
    by (intro Cons.IH) simp
  from Cons.prems e have k: "k \<noteq> 0" by simp
  show ?case
  proof (cases "\<not> t \<le> k \<and> go_rem t k = 0 \<and> c \<ge> go_quo t k")
    case True
    with k show ?thesis by (simp add: e)
  next
    case False
    then have "scanGroups t (e # es) = scanGroups t es" using k by (auto simp: e)
    with IH show ?thesis by auto
  qed
qed

lemma scanOrderPacks_scanGroups:
  "scanOrderPacks t ls = scanGroups t (map (\<lambda>p. (Amount (Pack p), Quantity p)) ls)"
  by (induction ls) (simp_all add: Let_def)

lemma tryMergeSameSizePacks_loop_total:
  assumes "\<forall>j. set (r j g) = set g" and "0 \<notin> fst ` set g" and "fst ` set g = lineSizes (Packs ord)"
  shows "\<exists>b ord'. tryMergeSameSizePacks_loop r j av g ord = Inr (b, ord') \<and>
           sameFields ord' ord \<and> lineSizes (Packs ord') \<subseteq> lineSizes (Packs ord) \<union> Amount ` set av"
proof (induction av arbitrary: j)
  case Nil
  show ?case by (rule exI [of _ False]) (simp add: sameFields_def)
next
  case (Cons t av)
  from assms have nz: "\<forall>e \<in> set (r j g). fst e \<noteq> 0" by force
  from scanGroups_total [OF nz, of "Amount t"] show ?case
  proof
    assume "scanGroups (Amount t) (r j g) = Inr None"
    with Cons.IH [of "Suc j"] show ?thesis by auto
  next
    assume "\<exists>sz \<in> fst ` set (r j g). scanGroups (Amount t) (r j g) = Inr (Some sz)"
    then obtain sz where "scanGroups (Amount t) (r j g) = Inr (Some sz)" by blast
    then show ?thesis
      using mergePack_sizes [of ord sz "Amount t" "go_quo (Amount t) sz"]
      by (auto simp: sameFields_def mergePack_frame)
  qed
qed

lemma iter_ok_set: "iter_ok \<rho> \<Longrightarrow> set (\<rho> i j g) = set g"
  by (metis iter_ok_def mset_eq_setD)

lemma tryMergeSameSizePacks_total:
  assumes "iter_ok \<rho>" and "0 \<notin> lineSizes (Packs ord)"
  shows "\<exists>b ord'. tryMergeSameSizePacks (\<rho> i) av ord = Inr (b, ord') \<and>
           sameFields ord' ord \<and> lineSizes (Packs ord') \<subseteq> lineSizes (Packs ord) \<union> Amount ` set av"
  unfolding tryMergeSameSizePacks_def
  using assms
  by (intro tryMergeSameSizePacks_loop_total) (simp_all add: iter_ok_set sizeGroups_keys)

lemma tryMergeDifferentSizePacks_total:
  assumes "0 \<notin> lineSizes (Packs ord)"
  shows "\<exists>ord'. tryMergeDifferentSizePacks av ord = Inr ord' \<and>
           sameFields ord' ord \<and> lineSizes (Packs ord') \<subseteq> lineSizes (Packs ord) \<union> Amount ` set av"
proof (induction av)
  case Nil
  show ?case by (simp add: sameFields_def)
next
  case (Cons t av)
  let ?es = "map (\<lambda>p. (Amount (Pack p), Quantity p)) (Packs ord)"
  from assms have nz: "\<forall>e \<in> set ?es. fst e \<noteq> 0" by (auto simp: lineSizes_def)
  from scanGroups_total [OF nz, of "Amount t"] show ?case
  proof
    assume "scanGroups (Amount t) ?es = Inr None"
    with Cons.IH show ?thesis by (auto simp: scanOrderPacks_scanGroups)
  next
    assume "\<exists>sz \<in> fst ` set ?es. scanGroups (Amount t) ?es = Inr (Some sz)"
    then obtain sz where "scanGroups (Amount t) ?es = Inr (Some sz)" by blast
    then show ?thesis
      using mergePack_sizes [of ord sz "Amount t" "go_quo (Amount t) sz"]
      by (auto simp: sameFields_def mergePack_frame scanOrderPacks_scanGroups)
  qed
qed

lemma mergePacks_loop_total:
  assumes "iter_ok \<rho>" and "0 \<notin> Amount ` set av"
  shows "0 \<notin> lineSizes (Packs ord) \<Longrightarrow>
         \<exists>ord'. mergePacks_loop \<rho> i n av ord = Inr ord' \<and> sameFields ord' ord \<and>
           lineSizes (Packs ord') \<subseteq> lineSizes (Packs ord) \<union> Amount ` set av"
proof (induction n arbitrary: i ord)
  case 0
  show ?case by (simp add: sameFields_def)
next
  case (Suc n)
  from tryMergeSameSizePacks_total [OF assms(1) Suc.prems, of i av]
  obtain b o1 where s1: "tryMergeSameSizePacks (\<rho> i) av ord = Inr (b, o1)"
    and f1: "sameFields o1 ord"
    and z1: "lineSizes (Packs o1) \<subseteq> lineSizes (Packs ord) \<union> Amount ` set av"
    by blast
  from z1 Suc.prems assms(2) have nz1: "0 \<notin> lineSizes (Packs o1)" by blast
  show ?case
  proof (cases b)
    case True
    from Suc.IH [OF nz1, of "Suc i"] obtain o2 where
      "mergePacks_loop \<rho> (Suc i) n av o1 = Inr o2" "sameFields o2 o1"
      "lineSizes (Packs o2) \<subseteq> lineSizes (Packs o1) \<union> Amount ` set av" by blast
    with s1 f1 z1 True show ?thesis by (auto simp: sameFields_def)
  next
    case False
    from tryMergeDifferentSizePacks_total [OF nz1, of av]
    obtain o2 where s2: "tryMergeDifferentSizePacks av o1 = Inr o2"
      and f2: "sameFields o2 o1"
      and z2: "lineSizes (Packs o2) \<subseteq> lineSizes (Packs o1) \<union> Amount ` set av"
      by blast
    from z2 nz1 assms(2) have nz2: "0 \<notin> lineSizes (Packs o2)" by blast
    from Suc.IH [OF nz2, of "Suc i"] obtain o3 where
      "mergePacks_loop \<rho> (Suc i) n av o2 = Inr o3" "sameFields o3 o2"
      "lineSizes (Packs o3) \<subseteq> lineSizes (Packs o2) \<union> Amount ` set av" by blast
    with s1 s2 f1 f2 z1 z2 False show ?thesis by (auto simp: sameFields_def)
  qed
qed

lemma mergePacks_total:
  assumes "iter_ok \<rho>" and "0 \<notin> Amount ` set ps" and "0 \<notin> lineSizes (Packs ord)"
  shows "\<exists>ord'. mergePacks \<rho> ps ord = Inr ord' \<and> sameFields ord' ord \<and>
           lineSizes (Packs ord') \<subseteq> lineSizes (Packs ord) \<union> Amount ` set ps"
  using mergePacks_loop_total [OF assms(1), of "getSortedPackSizes ps" ord 0 "length (getSortedPackSizes ps)"] assms(2,3)
  by (simp add: mergePacks_def getSortedPackSizes_def Let_def)

subsection \<open>Properties of greedy fill\<close>

lemma wrap64_id:
  "- 9223372036854775808 \<le> x \<Longrightarrow> x \<le> 9223372036854775807 \<Longrightarrow> wrap64 x = x"
  by (simp add: wrap64_def)

lemma wrap64_le: "0 \<le> x \<Longrightarrow> wrap64 x \<le> x"
proof -
  assume x: "0 \<le> x"
  have "(x + 9223372036854775808) mod 18446744073709551616 \<le> x + 9223372036854775808"
    by (rule zmod_le_nonneg_dividend) (use x in simp)
  then show ?thesis by (simp add: wrap64_def)
qed

lemma wrap64_diff: "wrap64 (wrap64 x - y) = wrap64 (x - y)"
proof -
  have "((x + 9223372036854775808) mod 18446744073709551616 - y) mod 18446744073709551616
          = (x + 9223372036854775808 - y) mod 18446744073709551616"
    by (rule mod_diff_left_eq)
  then show ?thesis by (simp add: wrap64_def algebra_simps)
qed

lemma lineItems_orderLine [simp]: "lineItems (orderLine (q, s)) = q * s"
  by (simp add: lineItems_def orderLine_def)

lemma greedyFill_skip:
  "\<not> (s \<le> r \<and> 0 < r div s) \<Longrightarrow> greedyFill (s # ss) r = greedyFill ss r"
  by (auto simp: Let_def)

lemma greedyFill_take:
  "s \<le> r \<Longrightarrow> 0 < r div s \<Longrightarrow>
     greedyFill (s # ss) r =
       ((r div s, s) # fst (greedyFill ss (r - r div s * s)),
        snd (greedyFill ss (r - r div s * s)))"
  by (simp add: Let_def split_beta)

lemma greedyFill_sum:
  "sumItems (map orderLine (fst (greedyFill ss r))) + snd (greedyFill ss r) = r"
proof (induction ss arbitrary: r)
  case Nil
  show ?case by (simp add: sumItems_def)
next
  case (Cons s ss)
  show ?case
  proof (cases "s \<le> r \<and> 0 < r div s")
    case False
    show ?thesis using Cons.IH [of r] unfolding greedyFill_skip [OF False] .
  next
    case True
    from Cons.IH [of "r - r div s * s"] True show ?thesis
      by (simp add: greedyFill_take sumItems_def del: greedyFill.simps)
  qed
qed

lemma greedyFill_remaining:
  assumes "\<forall>s \<in> set ss. 0 < s"
  shows "snd (greedyFill ss r) \<le> r \<and> (0 \<le> r \<longrightarrow> 0 \<le> snd (greedyFill ss r)) \<and>
         (\<forall>s \<in> set ss. snd (greedyFill ss r) < s)"
  using assms
proof (induction ss arbitrary: r)
  case Nil
  show ?case by simp
next
  case (Cons s ss)
  then have pos: "0 < s" and rest: "\<forall>s \<in> set ss. 0 < s" by simp_all
  note IH = Cons.IH [OF rest]
  show ?case
  proof (cases "s \<le> r \<and> 0 < r div s")
    case False
    with pos have lt: "r < s"
      by (simp add: pos_imp_zdiv_pos_iff)
    from IH [of r] lt show ?thesis unfolding greedyFill_skip [OF False] by auto
  next
    case True
    then have eq: "snd (greedyFill (s # ss) r) = snd (greedyFill ss (r mod s))"
      by (simp add: greedyFill_take minus_div_mult_eq_mod del: greedyFill.simps)
    from pos have b: "0 \<le> r mod s" "r mod s < s" by simp_all
    from True b have "r mod s \<le> r" by linarith
    with IH [of "r mod s"] b show ?thesis unfolding eq by auto
  qed
qed

lemma greedyFill_lines:
  "(q, s) \<in> set (fst (greedyFill ss r)) \<Longrightarrow> 0 < q \<and> s \<in> set ss"
proof (induction ss arbitrary: r)
  case Nil
  then show ?case by simp
next
  case (Cons s' ss)
  show ?case
  proof (cases "s' \<le> r \<and> 0 < r div s'")
    case False
    from Cons.prems have "(q, s) \<in> set (fst (greedyFill ss r))"
      unfolding greedyFill_skip [OF False] .
    from Cons.IH [OF this] show ?thesis by simp
  next
    case True
    with Cons.prems
    have "(q, s) = (r div s', s') \<or> (q, s) \<in> set (fst (greedyFill ss (r - r div s' * s')))"
      by (simp add: greedyFill_take del: greedyFill.simps)
    then show ?thesis
    proof
      assume "(q, s) = (r div s', s')"
      with True show ?thesis by simp
    next
      assume "(q, s) \<in> set (fst (greedyFill ss (r - r div s' * s')))"
      from Cons.IH [OF this] show ?thesis by simp
    qed
  qed
qed

lemma greedyFill_descending:
  "sorted_wrt (>) ss \<Longrightarrow> sorted_wrt (>) (map snd (fst (greedyFill ss r)))"
proof (induction ss arbitrary: r)
  case Nil
  show ?case by simp
next
  case (Cons s ss)
  then have above: "\<forall>x \<in> set ss. x < s" and rest: "sorted_wrt (>) ss" by simp_all
  note IH = Cons.IH [OF rest]
  show ?case
  proof (cases "s \<le> r \<and> 0 < r div s")
    case False
    show ?thesis using IH [of r] unfolding greedyFill_skip [OF False] .
  next
    case True
    have "\<forall>l \<in> set (fst (greedyFill ss (r - r div s * s))). snd l < s"
    proof
      fix l assume "l \<in> set (fst (greedyFill ss (r - r div s * s)))"
      then have "(fst l, snd l) \<in> set (fst (greedyFill ss (r - r div s * s)))" by simp
      from greedyFill_lines [OF this] above show "snd l < s" by simp
    qed
    with True IH [of "r - r div s * s"] show ?thesis
      by (simp add: greedyFill_take del: greedyFill.simps)
  qed
qed

lemma sortedPacks_props:
  "set (sortedPacks s) = set (packs s)"
  "length (sortedPacks s) = length (packs s)"
  "sorted (map (\<lambda>p. - Amount p) (sortedPacks s))"
  by (simp_all add: sortedPacks_def)

lemma getPacks_resortPacks: "getPacks (resortPacks s) = sortedPacks s"
proof -
  have "(\<lambda>pack::Pack. \<lparr>Amount = Amount pack\<rparr>) = id" by (rule ext) simp
  then show ?thesis by (simp add: getPacks_def resortPacks_def sortedPacks_def)
qed

lemma CalculateOrder_raw:
  assumes "packs s \<noteq> []" and "\<forall>p \<in> set (packs s). 0 < Amount p"
  shows "CalculateOrder \<rho> L s R =
     (case mergePacks \<rho> (sortedPacks s) (rawOrder (sortedPacks s) R) of
        Inl e \<Rightarrow> (Inl e, resortPacks s)
      | Inr ord \<Rightarrow>
          (case appendOrder L (resortPacks s) ord of
             Inl e \<Rightarrow> (Inl e, resortPacks s)
           | Inr s' \<Rightarrow> (Inr ord, s')))"
proof -
  let ?ps = "sortedPacks s"
  from assms have pos: "\<forall>p \<in> set ?ps. 0 < Amount p"
    by (simp add: sortedPacks_def)
  from assms(1) have "length ?ps \<noteq> 0" by (simp add: sortedPacks_def)
  then have ne: "?ps \<noteq> []" by auto
  obtain ls r where g: "greedyFill (map Amount ?ps) R = (ls, r)"
    by (cases "greedyFill (map Amount ?ps) R")
  show ?thesis
    using assms(1) ne g
    by (simp add: CalculateOrder_def getPacks_resortPacks useFullPacks_def
        useFullPacks_loop_greedy [OF pos] addPackForRemainingItems_def rawOrder_def Let_def
        sumItems_def orderLine_def lineItems_def pack_eta)
qed

subsection \<open>The order returned by CalculateOrder\<close>

lemma sorted_le_last: "sorted xs \<Longrightarrow> (x::int) \<in> set xs \<Longrightarrow> x \<le> last xs"
  by (induction xs) auto

lemma smallest_is_last:
  assumes "packs s \<noteq> []"
  shows "Amount (last (sortedPacks s)) = Min (Amount ` set (packs s))"
proof -
  let ?ps = "sortedPacks s"
  from assms have "length ?ps \<noteq> 0" by (simp add: sortedPacks_def)
  then have ne: "?ps \<noteq> []" by auto
  have "\<forall>p \<in> set ?ps. Amount (last ?ps) \<le> Amount p"
  proof
    fix p assume "p \<in> set ?ps"
    then have "- Amount p \<in> set (map (\<lambda>p. - Amount p) ?ps)" by simp
    with sortedPacks_props(3) [of s] have "- Amount p \<le> last (map (\<lambda>p. - Amount p) ?ps)"
      by (rule sorted_le_last)
    with ne show "Amount (last ?ps) \<le> Amount p" by (simp add: last_map)
  qed
  moreover from ne have "last ?ps \<in> set ?ps" by simp
  ultimately have "Min (Amount ` set ?ps) = Amount (last ?ps)"
    by (intro Min_eqI) auto
  then show ?thesis by (simp add: sortedPacks_props(1))
qed

lemma rawOrder_props:
  assumes "ps \<noteq> []" and "\<forall>p \<in> set ps. 0 < Amount p" and "0 < R"
  shows "RequestedItems (rawOrder ps R) = R"
    and "OverpackedItems (rawOrder ps R) = wrap64 (TotalItems (rawOrder ps R) - R)"
    and "OverpackedItems (rawOrder ps R) < Amount (last ps)"
    and "0 \<notin> lineSizes (Packs (rawOrder ps R))"
proof -
  obtain ls r where g: "greedyFill (map Amount ps) R = (ls, r)"
    by (cases "greedyFill (map Amount ps) R")
  from assms(2) have pos: "\<forall>s \<in> set (map Amount ps). 0 < s" by simp
  from greedyFill_sum [of "map Amount ps" R] g
  have sum: "sumItems (map orderLine ls) + r = R" by simp
  from assms(1) have "Amount (last ps) \<in> set (map Amount ps)" by simp
  with greedyFill_remaining [OF pos, of R] g assms(3)
  have r: "0 \<le> r" "r < Amount (last ps)" by auto
  show "RequestedItems (rawOrder ps R) = R"
    and "OverpackedItems (rawOrder ps R) = wrap64 (TotalItems (rawOrder ps R) - R)"
    by (simp_all add: rawOrder_def g Let_def)
  show "OverpackedItems (rawOrder ps R) < Amount (last ps)"
  proof (cases "0 < r")
    case True
    from sum have "sumItems (map orderLine ls) + Amount (last ps) - R = Amount (last ps) - r"
      by simp
    then have eq: "wrap64 (sumItems (map orderLine ls) + Amount (last ps) - R) =
        wrap64 (Amount (last ps) - r)" by (rule arg_cong)
    from True have "OverpackedItems (rawOrder ps R) =
        wrap64 (wrap64 (sumItems (map orderLine ls) + Amount (last ps)) - R)"
      by (simp add: rawOrder_def g Let_def)
    also have "\<dots> = wrap64 (sumItems (map orderLine ls) + Amount (last ps) - R)"
      by (rule wrap64_diff)
    also note eq
    also from r have "wrap64 (Amount (last ps) - r) \<le> Amount (last ps) - r"
      by (intro wrap64_le) simp
    also from True have "\<dots> < Amount (last ps)" by simp
    finally show ?thesis .
  next
    case False
    with r sum have "sumItems (map orderLine ls) - R = 0" by simp
    with False r show ?thesis by (simp add: rawOrder_def g Let_def wrap64_def)
  qed
  have "\<forall>l \<in> set ls. snd l \<noteq> 0"
  proof
    fix l assume "l \<in> set ls"
    with g have "(fst l, snd l) \<in> set (fst (greedyFill (map Amount ps) R))" by simp
    from greedyFill_lines [OF this] pos show "snd l \<noteq> 0" by auto
  qed
  moreover from r have "Amount (last ps) \<noteq> 0" by simp
  ultimately show "0 \<notin> lineSizes (Packs (rawOrder ps R))"
    by (auto simp: rawOrder_def g Let_def lineSizes_def orderLine_def)
qed

text \<open>
  When the requested quantity plus the smallest pack amount, less one, is a 64-bit
  value, neither the addition nor the subtraction wraps.
\<close>

lemma rawOrder_exact:
  assumes "ps \<noteq> []" and "\<forall>p \<in> set ps. 0 < Amount p" and "0 < R"
    and "R + Amount (last ps) - 1 \<le> 9223372036854775807"
  shows "R \<le> TotalItems (rawOrder ps R)"
    and "OverpackedItems (rawOrder ps R) = TotalItems (rawOrder ps R) - R"
proof -
  obtain ls r where g: "greedyFill (map Amount ps) R = (ls, r)"
    by (cases "greedyFill (map Amount ps) R")
  from assms(2) have pos: "\<forall>s \<in> set (map Amount ps). 0 < s" by simp
  from greedyFill_sum [of "map Amount ps" R] g
  have sum: "sumItems (map orderLine ls) + r = R" by simp
  from assms(1) have "Amount (last ps) \<in> set (map Amount ps)" by simp
  with greedyFill_remaining [OF pos, of R] g assms(3)
  have r: "0 \<le> r" "r < Amount (last ps)" by auto
  have "R \<le> TotalItems (rawOrder ps R) \<and>
        OverpackedItems (rawOrder ps R) = TotalItems (rawOrder ps R) - R"
  proof (cases "0 < r")
    case True
    let ?t = "sumItems (map orderLine ls) + Amount (last ps)"
    from sum have t: "?t = R - r + Amount (last ps)" by simp
    with True r assms(3,4) have "wrap64 ?t = ?t" by (intro wrap64_id) simp_all
    with True have total: "TotalItems (rawOrder ps R) = ?t"
      by (simp add: rawOrder_def g Let_def)
    from t True r assms(3,4) have "wrap64 (?t - R) = ?t - R" by (intro wrap64_id) simp_all
    with total have "OverpackedItems (rawOrder ps R) = ?t - R"
      using rawOrder_props(2) [OF assms(1-3)] by simp
    with total t r show ?thesis by simp
  next
    case False
    with r sum have "sumItems (map orderLine ls) = R" by simp
    with False show ?thesis by (simp add: rawOrder_def g Let_def wrap64_def)
  qed
  then show "R \<le> TotalItems (rawOrder ps R)"
    and "OverpackedItems (rawOrder ps R) = TotalItems (rawOrder ps R) - R" by simp_all
qed

lemma appendOrder_total:
  "1 \<le> L \<Longrightarrow> \<exists>s'. appendOrder L s ord = Inr s'"
  by (simp add: appendOrder_def Let_def)

lemma CalculateOrder_result:
  assumes "packs s \<noteq> []" and "\<forall>p \<in> set (packs s). 0 < Amount p" and "0 < R"
    and "iter_ok \<rho>" and "1 \<le> L"
  shows "\<exists>ord s'. CalculateOrder \<rho> L s R = (Inr ord, s') \<and>
           mergePacks \<rho> (sortedPacks s) (rawOrder (sortedPacks s) R) = Inr ord \<and>
           appendOrder L (resortPacks s) ord = Inr s' \<and>
           sameFields ord (rawOrder (sortedPacks s) R)"
proof -
  let ?ps = "sortedPacks s"
  from assms(1) have "length ?ps \<noteq> 0" by (simp add: sortedPacks_def)
  then have ne: "?ps \<noteq> []" by auto
  from assms(2) have pos: "\<forall>p \<in> set ?ps. 0 < Amount p" by (simp add: sortedPacks_def)
  then have nz: "0 \<notin> Amount ` set ?ps" by force
  from mergePacks_total [OF assms(4) nz rawOrder_props(4) [OF ne pos assms(3)]]
  obtain ord where m: "mergePacks \<rho> ?ps (rawOrder ?ps R) = Inr ord"
    and f: "sameFields ord (rawOrder ?ps R)" by blast
  from appendOrder_total [OF assms(5)] obtain s' where a: "appendOrder L (resortPacks s) ord = Inr s'"
    by blast
  from m a f show ?thesis
    by (simp add: CalculateOrder_raw [OF assms(1,2)])
qed

text \<open>
  Claim C3, with the bound under which it holds. For every non-empty catalog of
  positive pack sizes and every requested quantity \<open>R > 0\<close> such that \<open>R\<close> plus the
  smallest pack size, less one, does not exceed the largest 64-bit integer
  \<open>2^63 - 1\<close>, \<open>CalculateOrder\<close> returns an order with \<open>TotalItems \<ge> R\<close> and
  \<open>OverpackedItems = TotalItems - R \<ge> 0\<close>, whatever order the run time enumerates
  the map in. (\<open>SoftLimit\<close> is at least 1, as the slice expression of the history
  requires.) Past the bound the addition of the residual pack wraps around.
\<close>

theorem CalculateOrder_never_underfulfills:
  assumes "packs s \<noteq> []" and "\<forall>p \<in> set (packs s). 0 < Amount p" and "0 < R"
    and "R + Min (Amount ` set (packs s)) - 1 \<le> 9223372036854775807"
    and "iter_ok \<rho>" and "1 \<le> SoftLimit"
  shows "\<exists>ord s'. CalculateOrder \<rho> SoftLimit s R = (Inr ord, s') \<and>
           R \<le> TotalItems ord \<and> OverpackedItems ord = TotalItems ord - R \<and>
           0 \<le> OverpackedItems ord"
proof -
  let ?ps = "sortedPacks s"
  from assms(1) have "length ?ps \<noteq> 0" by (simp add: sortedPacks_def)
  then have ne: "?ps \<noteq> []" by auto
  from assms(2) have pos: "\<forall>p \<in> set ?ps. 0 < Amount p" by (simp add: sortedPacks_def)
  from assms(4) have bound: "R + Amount (last ?ps) - 1 \<le> 9223372036854775807"
    by (simp add: smallest_is_last [OF assms(1)])
  from CalculateOrder_result [OF assms(1-3,5,6)] obtain ord s' where
    c: "CalculateOrder \<rho> SoftLimit s R = (Inr ord, s')"
    and f: "sameFields ord (rawOrder ?ps R)" by blast
  from rawOrder_exact [OF ne pos assms(3) bound] f
  have "R \<le> TotalItems ord \<and> OverpackedItems ord = TotalItems ord - R \<and> 0 \<le> OverpackedItems ord"
    by (simp add: sameFields_def)
  with c show ?thesis by blast
qed

theorem CalculateOrder_never_underfulfills_witness:
  "list_all (\<lambda>p. 0 < Amount p) (packs (storageOf [5000, 2000, 1000, 500, 250])) \<and>
   1001 + Min (Amount ` set (packs (storageOf [5000, 2000, 1000, 500, 250]))) - 1
     \<le> 9223372036854775807 \<and>
   fst (CalculateOrder asStored 20 (storageOf [5000, 2000, 1000, 500, 250]) 1001) =
     Inr \<lparr>RequestedItems = 1001, OverpackedItems = 249, TotalItems = 1250,
          Packs = [\<lparr>Quantity = 1, Pack = \<lparr>Amount = 1000\<rparr>\<rparr>,
                   \<lparr>Quantity = 1, Pack = \<lparr>Amount = 250\<rparr>\<rparr>]\<rparr> \<and>
   (\<exists>ord s'. CalculateOrder asStored 20 (storageOf [5000, 2000, 1000, 500, 250]) 1001 = (Inr ord, s') \<and>
      1001 \<le> TotalItems ord \<and> OverpackedItems ord = TotalItems ord - 1001 \<and>
      0 \<le> OverpackedItems ord)"
proof -
  let ?s = "storageOf [5000, 2000, 1000, 500, 250]"
  have h1: "packs ?s \<noteq> []" by (simp add: storageOf_def)
  have h2: "\<forall>p \<in> set (packs ?s). 0 < Amount p" by (simp add: storageOf_def)
  have h3: "(0::int) < 1001" by simp
  have h4: "1001 + Min (Amount ` set (packs ?s)) - 1 \<le> 9223372036854775807"
    by (simp add: storageOf_def)
  have h5: "(1::int) \<le> 20" by simp
  have e: "fst (CalculateOrder asStored 20 ?s 1001) =
     Inr \<lparr>RequestedItems = 1001, OverpackedItems = 249, TotalItems = 1250,
          Packs = [\<lparr>Quantity = 1, Pack = \<lparr>Amount = 1000\<rparr>\<rparr>,
                   \<lparr>Quantity = 1, Pack = \<lparr>Amount = 250\<rparr>\<rparr>]\<rparr>"
    by code_simp
  from h2 have l: "list_all (\<lambda>p. 0 < Amount p) (packs ?s)" by (simp add: list_all_iff)
  from CalculateOrder_never_underfulfills [OF h1 h2 h3 h4 iter_ok_asStored h5] e l h4
  show ?thesis by blast
qed

text \<open>
  Claim C3 as the specification states it fails past the bound: with the catalog
  \<open>{2}\<close> and the request \<open>2^63 - 1\<close>, greedy fill ships \<open>2^62 - 1\<close> packs and leaves 1
  item, the residual pack brings the exact total to \<open>2^63\<close>, and the order returned
  carries \<open>TotalItems = -2^63\<close>, below the request.
\<close>

theorem CalculateOrder_never_underfulfills_counterexample:
  "fst (CalculateOrder asStored 20 (storageOf [2]) 9223372036854775807) =
     Inr \<lparr>RequestedItems = 9223372036854775807, OverpackedItems = 1,
          TotalItems = - 9223372036854775808,
          Packs = [\<lparr>Quantity = 4611686018427387903, Pack = \<lparr>Amount = 2\<rparr>\<rparr>,
                   \<lparr>Quantity = 1, Pack = \<lparr>Amount = 2\<rparr>\<rparr>]\<rparr> \<and>
   \<not> (9223372036854775807 :: int) \<le> - 9223372036854775808"
  by code_simp

subsection \<open>History, empty catalog, greedy fill and the overpack bound\<close>

lemma appendOrder_orders:
  assumes "appendOrder L s ord = Inr s'" and "int (length (orders s)) \<le> L"
  shows "1 \<le> L \<and> orders s' = drop (length (orders s) + 1 - nat L) (orders s @ [ord]) \<and>
         int (length (orders s')) \<le> L"
proof (cases "int (length (orders s)) = L")
  case True
  with assms(1) have L: "1 \<le> L" and o: "orders s' = drop 1 (orders s) @ [ord]"
    by (auto simp: appendOrder_def Let_def split: if_splits)
  from True L have n: "nat L = length (orders s)" "orders s \<noteq> []" by auto
  from n have "length (orders s) + 1 - nat L = 1" by simp
  moreover from n have "drop 1 (orders s @ [ord]) = drop 1 (orders s) @ [ord]"
    by (cases "orders s") simp_all
  ultimately show ?thesis using L o True n by simp
next
  case False
  with assms(2) have lt: "int (length (orders s)) < L" by simp
  with assms(1) have o: "orders s' = orders s @ [ord]"
    by (auto simp: appendOrder_def Let_def split: if_splits)
  from lt have "length (orders s) + 1 - nat L = 0" by simp
  with lt o show ?thesis by simp
qed

lemma CalculateOrder_appends:
  "CalculateOrder \<rho> L s R = (Inr ord, s') \<Longrightarrow> appendOrder L (resortPacks s) ord = Inr s'"
  by (auto simp: CalculateOrder_def Let_def split: if_splits sum.splits prod.splits)

lemma orders_resortPacks [simp]: "orders (resortPacks s) = orders s"
  by (simp add: resortPacks_def)

lemma drop_append_short: "k \<le> length xs \<Longrightarrow> drop k xs @ ys = drop k (xs @ ys)"
  by simp

lemma calculateAll_history:
  assumes "calculateAll L s reqs = Inr (ords, s')" and "int (length (orders s)) \<le> L"
  shows "length ords = length reqs \<and> int (length (orders s')) \<le> L \<and>
         orders s' = drop (length (orders s) + length ords - nat L) (orders s @ ords)"
  using assms
proof (induction reqs arbitrary: s ords)
  case Nil
  then show ?case by auto
next
  case (Cons req reqs)
  from Cons.prems(1) obtain ord s1 ords' where
    c: "CalculateOrder (fst req) L s (snd req) = (Inr ord, s1)"
    and r: "calculateAll L s1 reqs = Inr (ords', s')" and o: "ords = ord # ords'"
    by (auto split: prod.splits sum.splits)
  from CalculateOrder_appends [OF c] have a: "appendOrder L (resortPacks s) ord = Inr s1" .
  from appendOrder_orders [OF a] Cons.prems(2)
  have L: "1 \<le> L"
    and h1: "orders s1 = drop (length (orders s) + 1 - nat L) (orders s @ [ord])"
    and b1: "int (length (orders s1)) \<le> L" by simp_all
  from Cons.IH [OF r b1]
  have len: "length ords' = length reqs" and b: "int (length (orders s')) \<le> L"
    and h: "orders s' = drop (length (orders s1) + length ords' - nat L) (orders s1 @ ords')"
    by blast+
  let ?k = "length (orders s) + 1 - nat L"
  from Cons.prems(2) have k: "?k \<le> length (orders s @ [ord])" by simp
  have "drop ?k (orders s @ [ord]) @ ords' = drop ?k ((orders s @ [ord]) @ ords')"
    by (rule drop_append_short [OF k])
  then have e1: "orders s1 @ ords' = drop ?k (orders s @ ord # ords')"
    unfolding h1 by simp
  have e2: "length (orders s1) + length ords' - nat L + ?k
      = length (orders s) + length (ord # ords') - nat L"
    using Cons.prems(2) L unfolding h1 by auto
  have "orders s' = drop (length (orders s1) + length ords' - nat L) (orders s1 @ ords')"
    by (rule h)
  also have "\<dots> = drop (length (orders s1) + length ords' - nat L)
                     (drop ?k (orders s @ ord # ords'))"
    by (simp only: e1)
  also have "\<dots> = drop (length (orders s1) + length ords' - nat L + ?k)
                     (orders s @ ord # ords')"
    by (simp only: drop_drop)
  also have "\<dots> = drop (length (orders s) + length (ord # ords') - nat L)
                     (orders s @ ord # ords')"
    by (simp only: e2)
  finally have "orders s' =
      drop (length (orders s) + length (ord # ords') - nat L) (orders s @ ord # ords')" .
  then have "orders s' = drop (length (orders s) + length ords - nat L) (orders s @ ords)"
    unfolding o .
  moreover from len o have "length ords = length (req # reqs)" by simp
  ultimately show ?case using b by blast
qed

text \<open>
  Claim C8. With history cap \<open>N\<close>, after \<open>N + 1\<close> successful \<open>CalculateOrder\<close>
  calls on a storage whose history holds at most \<open>N\<close> orders (a new storage holds
  none), the history holds exactly \<open>N\<close> orders: those returned by the calls but the
  first, in the order of the calls, the newest last.
\<close>

theorem history_retention_cap:
  assumes "int (length (orders s)) \<le> N" and "length reqs = nat N + 1"
    and "calculateAll N s reqs = Inr (ords, s')"
  shows "int (length (orders s')) = N \<and> orders s' = tl ords \<and> last (orders s') = last ords"
proof -
  from calculateAll_history [OF assms(3,1)]
  have len: "length ords = length reqs"
    and h: "orders s' = drop (length (orders s) + length ords - nat N) (orders s @ ords)"
    by blast+
  from assms(2) obtain req reqs' where "reqs = req # reqs'" by (cases reqs) auto
  with assms(3) obtain ord s1 where c: "CalculateOrder (fst req) N s (snd req) = (Inr ord, s1)"
    by (auto split: prod.splits sum.splits)
  from appendOrder_orders [OF CalculateOrder_appends [OF c]] assms(1) have N: "1 \<le> N" by simp
  from len assms(2) have "length (orders s) + length ords - nat N = length (orders s) + 1"
    by simp
  with h have t: "orders s' = drop 1 ords" by simp
  from len assms(2) N have "int (length (drop 1 ords)) = N" "drop 1 ords \<noteq> []" by auto
  with t show ?thesis by (simp add: drop_Suc last_tl)
qed

theorem history_retention_cap_witness:
  "\<exists>ords s'.
     calculateAll 2 (storageOf [250]) [(asStored, 100), (asStored, 200), (asStored, 300)]
       = Inr (ords, s') \<and>
     map RequestedItems ords = [100, 200, 300] \<and>
     map RequestedItems (orders s') = [200, 300] \<and>
     int (length (orders s')) = 2 \<and> orders s' = tl ords \<and> last (orders s') = last ords"
proof -
  let ?line = "\<lparr>Quantity = 1, Pack = \<lparr>Amount = 250\<rparr>\<rparr>"
  let ?o1 = "\<lparr>RequestedItems = 100, OverpackedItems = 150, TotalItems = 250, Packs = [?line]\<rparr>"
  let ?o2 = "\<lparr>RequestedItems = 200, OverpackedItems = 50, TotalItems = 250, Packs = [?line]\<rparr>"
  let ?o3 = "\<lparr>RequestedItems = 300, OverpackedItems = 200, TotalItems = 500,
              Packs = [?line, ?line]\<rparr>"
  let ?s' = "\<lparr>packs = [\<lparr>Amount = 250\<rparr>], orders = [?o2, ?o3]\<rparr>"
  have h1: "int (length (orders (storageOf [250]))) \<le> 2" by (simp add: storageOf_def)
  have h2: "length [(asStored, 100::int), (asStored, 200), (asStored, 300)] = nat 2 + 1"
    by simp
  have h3: "calculateAll 2 (storageOf [250]) [(asStored, 100), (asStored, 200), (asStored, 300)]
       = Inr ([?o1, ?o2, ?o3], ?s')"
    by code_simp
  from history_retention_cap [OF h1 h2 h3] h3 show ?thesis by simp
qed

text \<open>
  Claim C5. On an empty catalog \<open>CalculateOrder\<close> fails with
  \<open>ErrNoPacksAvailable\<close> for every requested quantity, returns no order, and leaves the
  storage, and so the order history, as it was.
\<close>

theorem CalculateOrder_empty_catalog:
  "packs s = [] \<Longrightarrow> CalculateOrder \<rho> SoftLimit s R = (Inl ErrNoPacksAvailable, s)"
  by (simp add: CalculateOrder_def)

theorem CalculateOrder_empty_catalog_witness:
  "packs NewPackStorage = [] \<and>
   CalculateOrder asStored 20 NewPackStorage 100 = (Inl ErrNoPacksAvailable, NewPackStorage)"
  using CalculateOrder_empty_catalog [of NewPackStorage asStored 20 100]
  by (simp add: NewPackStorage_def)

text \<open>
  Claim C7. For a positive requested quantity and positive pack sizes sorted strictly
  descending, \<open>useFullPacks\<close> is the single descending pass of \<open>greedyFill\<close>: it
  appends the lines of that pass and adds their items to \<open>TotalItems\<close>; the remaining
  quantity it returns is not negative, the appended lines are in strictly descending
  size order, and none has quantity zero.
\<close>

theorem useFullPacks_greedy_fill:
  assumes "0 < RequestedItems ord" and "sorted_wrt (>) (map Amount ps)"
    and "\<forall>p \<in> set ps. 0 < Amount p"
  shows "\<exists>lines remaining.
           greedyFill (map Amount ps) (RequestedItems ord) = (lines, remaining) \<and>
           useFullPacks ps ord =
             Inr (remaining,
                  ord\<lparr>Packs := Packs ord @ map orderLine lines,
                      TotalItems := TotalItems ord + sumItems (map orderLine lines)\<rparr>) \<and>
           0 \<le> remaining \<and> sorted_wrt (>) (map snd lines) \<and> (\<forall>l \<in> set lines. 0 < fst l)"
proof -
  obtain ls r where g: "greedyFill (map Amount ps) (RequestedItems ord) = (ls, r)"
    by (cases "greedyFill (map Amount ps) (RequestedItems ord)")
  from assms(3) have pos: "\<forall>s \<in> set (map Amount ps). 0 < s" by simp
  from greedyFill_remaining [OF pos, of "RequestedItems ord"] assms(1) g have "0 \<le> r" by simp
  moreover from greedyFill_descending [OF assms(2), of "RequestedItems ord"] g
  have "sorted_wrt (>) (map snd ls)" by simp
  moreover have "\<forall>l \<in> set ls. 0 < fst l"
  proof
    fix l assume "l \<in> set ls"
    with g have "(fst l, snd l) \<in> set (fst (greedyFill (map Amount ps) (RequestedItems ord)))"
      by simp
    from greedyFill_lines [OF this] show "0 < fst l" by simp
  qed
  moreover from useFullPacks_loop_greedy [OF assms(3), of "RequestedItems ord" ord] g
  have "useFullPacks ps ord =
     Inr (r, ord\<lparr>Packs := Packs ord @ map orderLine ls,
                TotalItems := TotalItems ord + sumItems (map orderLine ls)\<rparr>)"
    by (simp add: useFullPacks_def)
  ultimately show ?thesis using g by blast
qed

theorem useFullPacks_greedy_fill_witness:
  "useFullPacks (packs (storageOf [5000, 2000, 1000, 500, 250])) (emptyOrder 7760) =
     Inr (10, \<lparr>RequestedItems = 7760, OverpackedItems = 0, TotalItems = 7750,
               Packs = [\<lparr>Quantity = 1, Pack = \<lparr>Amount = 5000\<rparr>\<rparr>,
                        \<lparr>Quantity = 1, Pack = \<lparr>Amount = 2000\<rparr>\<rparr>,
                        \<lparr>Quantity = 1, Pack = \<lparr>Amount = 500\<rparr>\<rparr>,
                        \<lparr>Quantity = 1, Pack = \<lparr>Amount = 250\<rparr>\<rparr>]\<rparr>) \<and>
   (\<exists>lines remaining.
           greedyFill (map Amount (packs (storageOf [5000, 2000, 1000, 500, 250]))) (RequestedItems (emptyOrder 7760)) = (lines, remaining) \<and>
           useFullPacks (packs (storageOf [5000, 2000, 1000, 500, 250])) (emptyOrder 7760) =
             Inr (remaining,
                  (emptyOrder 7760)\<lparr>Packs := Packs (emptyOrder 7760) @ map orderLine lines,
                      TotalItems := TotalItems (emptyOrder 7760) + sumItems (map orderLine lines)\<rparr>) \<and>
           0 \<le> remaining \<and> sorted_wrt (>) (map snd lines) \<and> list_all (\<lambda>l. 0 < fst l) lines)"
proof -
  let ?ps = "packs (storageOf [5000, 2000, 1000, 500, 250])"
  have h1: "0 < RequestedItems (emptyOrder 7760)" by (simp add: emptyOrder_def)
  have h2: "sorted_wrt (>) (map Amount ?ps)" by (simp add: storageOf_def)
  have h3: "\<forall>p \<in> set ?ps. 0 < Amount p" by (simp add: storageOf_def)
  have e: "useFullPacks ?ps (emptyOrder 7760) =
     Inr (10, \<lparr>RequestedItems = 7760, OverpackedItems = 0, TotalItems = 7750,
               Packs = [\<lparr>Quantity = 1, Pack = \<lparr>Amount = 5000\<rparr>\<rparr>,
                        \<lparr>Quantity = 1, Pack = \<lparr>Amount = 2000\<rparr>\<rparr>,
                        \<lparr>Quantity = 1, Pack = \<lparr>Amount = 500\<rparr>\<rparr>,
                        \<lparr>Quantity = 1, Pack = \<lparr>Amount = 250\<rparr>\<rparr>]\<rparr>)"
    by code_simp
  from useFullPacks_greedy_fill [OF h1 h2 h3] e
  show ?thesis unfolding list_all_iff by blast
qed

text \<open>
  Claim C9. For every non-empty catalog of positive pack sizes and every \<open>R > 0\<close>:
  what remains after greedy fill is less than the smallest pack size, residual addition
  leaves the lines alone or appends one line of quantity 1 of the smallest size, and the
  order returned has \<open>OverpackedItems\<close> below the smallest pack size.
  \<open>OverpackedItems\<close> is \<open>TotalItems - R\<close> as the 64-bit subtraction yields it, which is
  the exact difference when \<open>R\<close> plus the smallest pack size, less one, is a 64-bit
  value.
\<close>

theorem overpack_below_smallest_pack:
  assumes "packs s \<noteq> []" and "\<forall>p \<in> set (packs s). 0 < Amount p" and "0 < R"
    and "iter_ok \<rho>" and "1 \<le> SoftLimit"
  shows "\<exists>remaining order1 order2 ord s'.
           useFullPacks (getPacks (resortPacks s)) (emptyOrder R) = Inr (remaining, order1) \<and>
           0 \<le> remaining \<and> remaining < Min (Amount ` set (packs s)) \<and>
           addPackForRemainingItems remaining (getPacks (resortPacks s)) order1 = Inr order2 \<and>
           (Packs order2 = Packs order1 \<or>
            Packs order2 =
              Packs order1 @ [\<lparr>Quantity = 1, Pack = \<lparr>Amount = Min (Amount ` set (packs s))\<rparr>\<rparr>]) \<and>
           CalculateOrder \<rho> SoftLimit s R = (Inr ord, s') \<and>
           OverpackedItems ord = wrap64 (TotalItems ord - R) \<and>
           (R + Min (Amount ` set (packs s)) - 1 \<le> 9223372036854775807 \<longrightarrow>
              OverpackedItems ord = TotalItems ord - R) \<and>
           OverpackedItems ord < Min (Amount ` set (packs s))"
proof -
  let ?ps = "sortedPacks s"
  let ?m = "Min (Amount ` set (packs s))"
  from assms(1) have "length ?ps \<noteq> 0" by (simp add: sortedPacks_def)
  then have ne: "?ps \<noteq> []" by auto
  from assms(2) have pos: "\<forall>p \<in> set ?ps. 0 < Amount p" by (simp add: sortedPacks_def)
  then have pos': "\<forall>s \<in> set (map Amount ?ps). 0 < s" by simp
  note last = smallest_is_last [OF assms(1)]
  obtain ls r where g: "greedyFill (map Amount ?ps) R = (ls, r)"
    by (cases "greedyFill (map Amount ?ps) R")
  let ?o1 = "(emptyOrder R)\<lparr>Packs := Packs (emptyOrder R) @ map orderLine ls,
      TotalItems := TotalItems (emptyOrder R) + sumItems (map orderLine ls)\<rparr>"
  from useFullPacks_loop_greedy [OF pos, of R "emptyOrder R"] g
  have u: "useFullPacks (getPacks (resortPacks s)) (emptyOrder R) = Inr (r, ?o1)"
    by (simp add: useFullPacks_def getPacks_resortPacks emptyOrder_def)
  from ne have "Amount (last ?ps) \<in> set (map Amount ?ps)" by simp
  with greedyFill_remaining [OF pos', of R] g assms(3) last
  have r: "0 \<le> r" "r < ?m" by auto
  have lp: "last ?ps = \<lparr>Amount = ?m\<rparr>"
    using last pack_eta [of "last ?ps"] by simp
  have "\<exists>o2. addPackForRemainingItems r (getPacks (resortPacks s)) ?o1 = Inr o2 \<and>
          (Packs o2 = Packs ?o1 \<or>
           Packs o2 = Packs ?o1 @ [\<lparr>Quantity = 1, Pack = \<lparr>Amount = ?m\<rparr>\<rparr>])"
  proof (cases "r \<le> 0")
    case True
    then show ?thesis by (simp add: addPackForRemainingItems_def)
  next
    case False
    with ne show ?thesis
      by (simp add: addPackForRemainingItems_def getPacks_resortPacks Let_def lp)
  qed
  then obtain o2 where a: "addPackForRemainingItems r (getPacks (resortPacks s)) ?o1 = Inr o2"
    and l: "Packs o2 = Packs ?o1 \<or>
            Packs o2 = Packs ?o1 @ [\<lparr>Quantity = 1, Pack = \<lparr>Amount = ?m\<rparr>\<rparr>]"
    by blast
  from CalculateOrder_result [OF assms] obtain ord s' where
    c: "CalculateOrder \<rho> SoftLimit s R = (Inr ord, s')"
    and f: "sameFields ord (rawOrder ?ps R)" by blast
  from rawOrder_props(2,3) [OF ne pos assms(3)] f last
  have o: "OverpackedItems ord = wrap64 (TotalItems ord - R)" "OverpackedItems ord < ?m"
    by (simp_all add: sameFields_def)
  have e: "R + ?m - 1 \<le> 9223372036854775807 \<longrightarrow> OverpackedItems ord = TotalItems ord - R"
  proof
    assume "R + ?m - 1 \<le> 9223372036854775807"
    with last have "R + Amount (last ?ps) - 1 \<le> 9223372036854775807" by simp
    from rawOrder_exact(2) [OF ne pos assms(3) this] f
    show "OverpackedItems ord = TotalItems ord - R" by (simp add: sameFields_def)
  qed
  from u r a l c o e show ?thesis by blast
qed

theorem overpack_below_smallest_pack_witness:
  "Min (Amount ` set (packs (storageOf [500, 250]))) = 250 \<and>
   (\<exists>remaining order1 order2 ord s'.
           useFullPacks (getPacks (resortPacks (storageOf [500, 250]))) (emptyOrder 251) = Inr (remaining, order1) \<and>
           0 \<le> remaining \<and> remaining < Min (Amount ` set (packs (storageOf [500, 250]))) \<and>
           addPackForRemainingItems remaining (getPacks (resortPacks (storageOf [500, 250]))) order1 = Inr order2 \<and>
           (Packs order2 = Packs order1 \<or>
            Packs order2 =
              Packs order1 @ [\<lparr>Quantity = 1, Pack = \<lparr>Amount = Min (Amount ` set (packs (storageOf [500, 250])))\<rparr>\<rparr>]) \<and>
           CalculateOrder asStored 20 (storageOf [500, 250]) 251 = (Inr ord, s') \<and>
           OverpackedItems ord = wrap64 (TotalItems ord - 251) \<and>
           OverpackedItems ord = TotalItems ord - 251 \<and>
           OverpackedItems ord < Min (Amount ` set (packs (storageOf [500, 250]))))"
proof -
  let ?s = "storageOf [500, 250]"
  have h1: "packs ?s \<noteq> []" by (simp add: storageOf_def)
  have h2: "\<forall>p \<in> set (packs ?s). 0 < Amount p" by (simp add: storageOf_def)
  have h3: "(0::int) < 251" by simp
  have h5: "(1::int) \<le> 20" by simp
  have m: "Min (Amount ` set (packs ?s)) = 250" by (simp add: storageOf_def)
  have b: "251 + Min (Amount ` set (packs ?s)) - 1 \<le> 9223372036854775807"
    by (simp add: storageOf_def)
  from overpack_below_smallest_pack [OF h1 h2 h3 iter_ok_asStored h5] m b
  show ?thesis by blast
qed

subsection \<open>Size groups and the merge test\<close>

lemma groupCount_Nil [simp]: "groupCount [] s = 0"
  by (simp add: groupCount_def)

lemma groupCount_Cons:
  "groupCount (p # ls) s = (if Amount (Pack p) = s then Quantity p else 0) + groupCount ls s"
  by (simp add: groupCount_def)

lemma groupCount_append: "groupCount (xs @ ys) s = groupCount xs s + groupCount ys s"
  by (simp add: groupCount_def)

lemma groupCount_absent: "s \<notin> lineSizes ls \<Longrightarrow> groupCount ls s = 0"
  by (induction ls) (auto simp: groupCount_Cons lineSizes_def)

lemma groupCount_nonneg: "\<forall>p \<in> set ls. 0 \<le> Quantity p \<Longrightarrow> 0 \<le> groupCount ls s"
  by (induction ls) (auto simp: groupCount_Cons)

lemma groupCount_member:
  "\<forall>p \<in> set ls. 0 \<le> Quantity p \<Longrightarrow> p \<in> set ls \<Longrightarrow>
     Quantity p \<le> groupCount ls (Amount (Pack p))"
proof (induction ls)
  case Nil
  then show ?case by simp
next
  case (Cons x ls)
  then have nn: "\<forall>p \<in> set ls. 0 \<le> Quantity p" and x: "0 \<le> Quantity x" by simp_all
  from groupCount_nonneg [OF nn] have g: "0 \<le> groupCount ls (Amount (Pack p))" .
  show ?case
  proof (cases "p = x")
    case True
    with g show ?thesis by (simp add: groupCount_Cons)
  next
    case False
    with Cons.prems have "p \<in> set ls" by simp
    from Cons.IH [OF nn this] x show ?thesis by (simp add: groupCount_Cons)
  qed
qed

lemma addGroup_distinct:
  "distinct (map fst m) \<Longrightarrow> distinct (map fst (addGroup k q m))"
proof (induction m)
  case Nil
  show ?case by simp
next
  case (Cons e m)
  obtain k' c where e: "e = (k', c)" by (cases e)
  from Cons.prems e have d: "distinct (map fst m)" and n: "k' \<notin> fst ` set m" by simp_all
  show ?case
  proof (cases "k' = k")
    case True
    with d n show ?thesis by (simp add: e)
  next
    case False
    with n have "k' \<notin> fst ` set (addGroup k q m)" by (simp add: addGroup_keys)
    with False Cons.IH [OF d] show ?thesis by (simp add: e)
  qed
qed

lemma addGroup_entries:
  "distinct (map fst m) \<Longrightarrow> e \<in> set (addGroup k q m) \<Longrightarrow>
     (fst e \<noteq> k \<and> e \<in> set m) \<or>
     (fst e = k \<and> (\<exists>c. (k, c) \<in> set m \<and> snd e = c + q)) \<or>
     (e = (k, q) \<and> k \<notin> fst ` set m)"
proof (induction m)
  case Nil
  then show ?case by simp
next
  case (Cons x m)
  obtain k' c where x: "x = (k', c)" by (cases x)
  from Cons.prems(1) x have d: "distinct (map fst m)" and n: "k' \<notin> fst ` set m" by simp_all
  show ?case
  proof (cases "k' = k")
    case True
    with Cons.prems(2) x have "e = (k, c + q) \<or> e \<in> set m" by simp
    then show ?thesis
    proof
      assume "e = (k, c + q)"
      with True x show ?thesis by auto
    next
      assume m: "e \<in> set m"
      with n True have "fst e \<noteq> k" by force
      with m show ?thesis by simp
    qed
  next
    case False
    with Cons.prems(2) x have "e = (k', c) \<or> e \<in> set (addGroup k q m)" by simp
    then show ?thesis
    proof
      assume "e = (k', c)"
      with False x show ?thesis by simp
    next
      assume "e \<in> set (addGroup k q m)"
      from Cons.IH [OF d this] False x show ?thesis by auto
    qed
  qed
qed

lemma foldl_addGroup_entries:
  assumes "distinct (map fst m)" and "fst ` set m = lineSizes pre"
    and "\<forall>e \<in> set m. snd e = groupCount pre (fst e)"
  shows "\<forall>e \<in> set (foldl (\<lambda>m op. addGroup (Amount (Pack op)) (Quantity op) m) m ls).
           snd e = groupCount (pre @ ls) (fst e)"
  using assms
proof (induction ls arbitrary: m pre)
  case Nil
  then show ?case by simp
next
  case (Cons p ls)
  let ?k = "Amount (Pack p)" and ?q = "Quantity p"
  let ?m' = "addGroup ?k ?q m"
  have d: "distinct (map fst ?m')" using Cons.prems(1) by (rule addGroup_distinct)
  have k: "fst ` set ?m' = lineSizes (pre @ [p])"
    using Cons.prems(2) by (simp add: addGroup_keys lineSizes_def)
  have v: "\<forall>e \<in> set ?m'. snd e = groupCount (pre @ [p]) (fst e)"
  proof
    fix e assume "e \<in> set ?m'"
    from addGroup_entries [OF Cons.prems(1) this]
    show "snd e = groupCount (pre @ [p]) (fst e)"
    proof (elim disjE conjE exE)
      assume "fst e \<noteq> ?k" "e \<in> set m"
      with Cons.prems(3) show ?thesis by (simp add: groupCount_append groupCount_Cons)
    next
      fix c assume "fst e = ?k" "(?k, c) \<in> set m" "snd e = c + ?q"
      with Cons.prems(3) show ?thesis by (force simp: groupCount_append groupCount_Cons)
    next
      assume "e = (?k, ?q)" "?k \<notin> fst ` set m"
      with Cons.prems(2) groupCount_absent [of ?k pre] show ?thesis
        by (simp add: groupCount_append groupCount_Cons)
    qed
  qed
  from Cons.IH [OF d k v] show ?case by simp
qed

lemma sizeGroups_entries:
  "e \<in> set (sizeGroups ls) \<Longrightarrow> fst e \<in> lineSizes ls \<and> snd e = groupCount ls (fst e)"
proof -
  assume e: "e \<in> set (sizeGroups ls)"
  have "\<forall>e \<in> set (sizeGroups ls). snd e = groupCount ([] @ ls) (fst e)"
    unfolding sizeGroups_def by (rule foldl_addGroup_entries) (simp_all add: lineSizes_def)
  with e have "snd e = groupCount ls (fst e)" by simp
  moreover from e have "fst e \<in> lineSizes ls" using sizeGroups_keys [of ls] by blast
  ultimately show ?thesis by simp
qed

lemma sizeGroups_has:
  "s \<in> lineSizes ls \<Longrightarrow> (s, groupCount ls s) \<in> set (sizeGroups ls)"
proof -
  assume "s \<in> lineSizes ls"
  then have "s \<in> fst ` set (sizeGroups ls)" by (simp add: sizeGroups_keys)
  then obtain e where e: "e \<in> set (sizeGroups ls)" "fst e = s" by (auto simp: image_iff)
  with sizeGroups_entries [OF e(1)] have "e = (s, groupCount ls s)" by (cases e) simp
  with e show ?thesis by simp
qed

text \<open>The inner loop finds nothing when nothing qualifies, and the one size that can.\<close>

lemma scanGroups_unique:
  assumes "\<forall>e \<in> set es. fst e \<noteq> 0" and "\<forall>e \<in> set es. qualifies t e \<longrightarrow> fst e = h"
  shows "scanGroups t es = Inr (if \<exists>e \<in> set es. qualifies t e then Some h else None)"
  using assms
proof (induction es)
  case Nil
  show ?case by simp
next
  case (Cons e es)
  obtain k c where e: "e = (k, c)" by (cases e)
  from Cons.prems e have k: "k \<noteq> 0" by simp
  from Cons.prems have IH:
    "scanGroups t es = Inr (if \<exists>e \<in> set es. qualifies t e then Some h else None)"
    by (intro Cons.IH) simp_all
  show ?case
  proof (cases "qualifies t e")
    case True
    with Cons.prems(2) e have "k = h" by simp
    with True k show ?thesis by (auto simp: e qualifies_def)
  next
    case False
    with k have "scanGroups t (e # es) = scanGroups t es" by (auto simp: e qualifies_def)
    with IH False show ?thesis by simp
  qed
qed

lemma scanGroups_none:
  assumes "\<forall>e \<in> set es. fst e \<noteq> 0" and "\<forall>e \<in> set es. \<not> qualifies t e"
  shows "scanGroups t es = Inr None"
  using scanGroups_unique [OF assms(1), of t 0] assms(2) by simp

subsection \<open>One consolidation round under the invariant\<close>

lemma qualifies_arith:
  assumes "0 < s" and "0 < T" and "qualifies T (s, c)"
  shows "s < T" and "T mod s = 0" and "T div s \<le> c" and "T \<le> c * s"
proof -
  from assms(2) have T: "0 \<le> T" by simp
  from assms(3) show "s < T" and m: "T mod s = 0" and d: "T div s \<le> c"
    by (simp_all add: qualifies_def go_rem_pos [OF T assms(1)] go_quo_pos [OF T assms(1)])
  from m have "T = T div s * s" by (simp add: dvd_div_mult_self mod_0_imp_dvd)
  also from d assms(1) have "\<dots> \<le> c * s" by (simp add: mult_right_mono)
  finally show "T \<le> c * s" .
qed

lemma mergeInv_positive:
  "mergeInv C h ls \<Longrightarrow> s \<in> lineSizes ls \<Longrightarrow> 0 < s"
  by (auto simp: mergeInv_def lineSizes_def)

lemma mergeInv_bound:
  assumes "mergeInv C h ls" and "s \<in> lineSizes ls" and "T \<in> C" and "s < T"
  shows "groupCount ls s * s < (if s = h then T + h else T)"
proof -
  from assms(1) have "\<forall>s \<in> lineSizes ls. \<forall>T \<in> C. s < T \<longrightarrow>
         groupCount ls s * s < (if s = h then T + h else T)"
    unfolding mergeInv_def by (rule conjunct2)
  with assms(2,3,4) show ?thesis by blast
qed

lemma qualifies_hot:
  assumes "mergeInv C h ls" and "T \<in> C" and "0 < T"
    and "e \<in> set (sizeGroups ls)" and "qualifies T e"
  shows "fst e = h"
proof (rule ccontr)
  assume ne: "fst e \<noteq> h"
  from sizeGroups_entries [OF assms(4)]
  have s: "fst e \<in> lineSizes ls" and c: "snd e = groupCount ls (fst e)" by simp_all
  from mergeInv_positive [OF assms(1) s] have pos: "0 < fst e" .
  from assms(5) have "qualifies T (fst e, snd e)" by simp
  from qualifies_arith(1,4) [OF pos assms(3) this]
  have "fst e < T" "T \<le> groupCount ls (fst e) * fst e" by (simp_all add: c)
  moreover from mergeInv_bound [OF assms(1) s assms(2) \<open>fst e < T\<close>] ne
  have "groupCount ls (fst e) * fst e < T" by simp
  ultimately show False by simp
qed

lemma hot_exact:
  assumes "mergeInv C h ls" and "h \<in> lineSizes ls" and "T \<in> C" and "0 < T"
    and "qualifies T (h, groupCount ls h)"
  shows "go_quo T h = groupCount ls h" and "h < T"
proof -
  from mergeInv_positive [OF assms(1,2)] have h: "0 < h" .
  note q = qualifies_arith [OF h assms(4,5)]
  from q(1) show "h < T" .
  from mergeInv_bound [OF assms(1,2,3) q(1)] have "groupCount ls h * h < T + h" by simp
  moreover from q(2) have "T = T div h * h" by (simp add: dvd_div_mult_self mod_0_imp_dvd)
  ultimately have "groupCount ls h * h < (T div h + 1) * h" by (simp add: algebra_simps)
  with h have "groupCount ls h < T div h + 1" by (simp add: mult_less_cancel_right)
  with q(3) have "T div h = groupCount ls h" by simp
  with assms(4) h show "go_quo T h = groupCount ls h" by (simp add: go_quo_pos)
qed

text \<open>
  One round of the same-size merge when at most the size \<open>h\<close> can qualify: the order in
  which the map is enumerated does not matter.
\<close>

lemma tryMergeSameSizePacks_loop_unique:
  assumes nz: "\<forall>e \<in> set g. fst e \<noteq> 0" and r: "\<forall>j. set (r j g) = set g"
  shows "\<forall>t \<in> set av. \<forall>e \<in> set g. qualifies (Amount t) e \<longrightarrow> fst e = h \<Longrightarrow>
         tryMergeSameSizePacks_loop r j av g ord =
           Inr (case find (\<lambda>T. \<exists>e \<in> set g. qualifies T e) (map Amount av) of
                  None \<Rightarrow> (False, ord)
                | Some T \<Rightarrow> (True, mergePack ord h T (go_quo T h)))"
proof (induction av arbitrary: j)
  case Nil
  show ?case by simp
next
  case (Cons t av)
  from Cons.prems have t: "\<forall>e \<in> set g. qualifies (Amount t) e \<longrightarrow> fst e = h"
    and rest: "\<forall>t \<in> set av. \<forall>e \<in> set g. qualifies (Amount t) e \<longrightarrow> fst e = h"
    by simp_all
  from nz r have nz': "\<forall>e \<in> set (r j g). fst e \<noteq> 0" by simp
  from t r have hot: "\<forall>e \<in> set (r j g). qualifies (Amount t) e \<longrightarrow> fst e = h" by simp
  from scanGroups_unique [OF nz' hot] r
  have scan: "scanGroups (Amount t) (r j g) =
      Inr (if \<exists>e \<in> set g. qualifies (Amount t) e then Some h else None)" by simp
  show ?case
  proof (cases "\<exists>e \<in> set g. qualifies (Amount t) e")
    case True
    with scan show ?thesis by simp
  next
    case False
    with scan Cons.IH [OF rest, of "Suc j"] show ?thesis by simp
  qed
qed

lemma find_qualifying_hot:
  assumes inv: "mergeInv C h ls"
  shows "\<forall>t \<in> set av. Amount t \<in> C \<and> 0 < Amount t \<Longrightarrow>
         find (\<lambda>T. \<exists>e \<in> set (sizeGroups ls). qualifies T e) (map Amount av) = hotTarget av h ls"
proof (induction av)
  case Nil
  show ?case by (simp add: hotTarget_def)
next
  case (Cons t av)
  from Cons.prems have t: "Amount t \<in> C" "0 < Amount t"
    and rest: "\<forall>t \<in> set av. Amount t \<in> C \<and> 0 < Amount t" by simp_all
  have ex: "(\<exists>e \<in> set (sizeGroups ls). qualifies (Amount t) e) \<longleftrightarrow>
            (h \<in> lineSizes ls \<and> qualifies (Amount t) (h, groupCount ls h))"
  proof
    assume "\<exists>e \<in> set (sizeGroups ls). qualifies (Amount t) e"
    then obtain e where e: "e \<in> set (sizeGroups ls)" "qualifies (Amount t) e" by auto
    from qualifies_hot [OF inv t e] sizeGroups_entries [OF e(1)] e(2)
    show "h \<in> lineSizes ls \<and> qualifies (Amount t) (h, groupCount ls h)"
      by (cases e) auto
  next
    assume "h \<in> lineSizes ls \<and> qualifies (Amount t) (h, groupCount ls h)"
    with sizeGroups_has [of h ls]
    show "\<exists>e \<in> set (sizeGroups ls). qualifies (Amount t) e" by auto
  qed
  from Cons.IH [OF rest] ex show ?case by (auto simp: hotTarget_def)
qed

lemma tryMergeSameSizePacks_hot:
  assumes "mergeInv C h (Packs ord)" and "\<forall>j g. set (r j g) = set g"
    and "\<forall>t \<in> set av. Amount t \<in> C \<and> 0 < Amount t"
  shows "tryMergeSameSizePacks r av ord =
           Inr (case hotTarget av h (Packs ord) of
                  None \<Rightarrow> (False, ord)
                | Some T \<Rightarrow> (True, mergePack ord h T (go_quo T h)))"
proof -
  let ?g = "sizeGroups (Packs ord)"
  have nz: "\<forall>e \<in> set ?g. fst e \<noteq> 0"
  proof
    fix e assume "e \<in> set ?g"
    from sizeGroups_entries [OF this] mergeInv_positive [OF assms(1), of "fst e"]
    show "fst e \<noteq> 0" by auto
  qed
  from assms(2) have r: "\<forall>j. set (r j ?g) = set ?g" by simp
  have hot: "\<forall>t \<in> set av. \<forall>e \<in> set ?g. qualifies (Amount t) e \<longrightarrow> fst e = h"
    using qualifies_hot [OF assms(1)] assms(3) by blast
  from tryMergeSameSizePacks_loop_unique [where r = r and g = ?g, OF nz r hot]
    find_qualifying_hot [OF assms(1,3)]
  show ?thesis by (simp add: tryMergeSameSizePacks_def)
qed

lemma hotTarget_Some:
  "hotTarget av h ls = Some T \<Longrightarrow>
     h \<in> lineSizes ls \<and> T \<in> Amount ` set av \<and> qualifies T (h, groupCount ls h)"
  by (auto simp: hotTarget_def find_Some_iff split: if_splits)

lemma hotTarget_None:
  "hotTarget av h ls = None \<Longrightarrow> h \<in> lineSizes ls \<Longrightarrow> t \<in> set av \<Longrightarrow>
     \<not> qualifies (Amount t) (h, groupCount ls h)"
  by (auto simp: hotTarget_def find_None_iff)

lemma tryMergeDifferentSizePacks_stable:
  assumes inv: "mergeInv C h (Packs ord)" and none: "hotTarget av0 h (Packs ord) = None"
  shows "\<forall>t \<in> set av. t \<in> set av0 \<and> Amount t \<in> C \<and> 0 < Amount t \<Longrightarrow>
         tryMergeDifferentSizePacks av ord = Inr ord"
proof (induction av)
  case Nil
  show ?case by simp
next
  case (Cons t av)
  let ?ls = "Packs ord"
  let ?es = "map (\<lambda>p. (Amount (Pack p), Quantity p)) ?ls"
  from Cons.prems have t: "t \<in> set av0" "Amount t \<in> C" "0 < Amount t" by simp_all
  from inv have pos: "\<forall>p \<in> set ?ls. 0 \<le> Quantity p" by (auto simp: mergeInv_def)
  have nz: "\<forall>e \<in> set ?es. fst e \<noteq> 0" using inv by (auto simp: mergeInv_def)
  have nq: "\<forall>e \<in> set ?es. \<not> qualifies (Amount t) e"
  proof
    fix e assume "e \<in> set ?es"
    then obtain p where p: "p \<in> set ?ls" "e = (Amount (Pack p), Quantity p)" by auto
    let ?s = "Amount (Pack p)"
    from p(1) have s: "?s \<in> lineSizes ?ls" by (auto simp: lineSizes_def)
    show "\<not> qualifies (Amount t) e"
    proof
      assume "qualifies (Amount t) e"
      with p(2) groupCount_member [OF pos p(1)]
      have q: "qualifies (Amount t) (?s, groupCount ?ls ?s)" by (simp add: qualifies_def)
      from qualifies_hot [OF inv t(2,3) sizeGroups_has [OF s] q] have "?s = h" by simp
      with q s hotTarget_None [OF none _ t(1)] show False by simp
    qed
  qed
  from scanGroups_none [OF nz nq] Cons.IH Cons.prems show ?case
    by (simp add: scanOrderPacks_scanGroups)
qed

subsection \<open>Merging a whole group, and the rounds of mergePacks\<close>

lemma removePacks_all:
  "\<forall>p \<in> set ls. 0 \<le> Quantity p \<Longrightarrow> groupCount ls f \<le> n \<Longrightarrow>
     removePacks f n ls = filter (\<lambda>p. Amount (Pack p) \<noteq> f) ls"
proof (induction ls arbitrary: n)
  case Nil
  show ?case by simp
next
  case (Cons p ls)
  then have nn: "\<forall>p \<in> set ls. 0 \<le> Quantity p" and q: "0 \<le> Quantity p" by simp_all
  from groupCount_nonneg [OF nn] have g: "0 \<le> groupCount ls f" .
  show ?case
  proof (cases "Amount (Pack p) = f")
    case False
    with Cons.prems(2) have "groupCount ls f \<le> n" by (simp add: groupCount_Cons)
    from Cons.IH [OF nn this] False show ?thesis by simp
  next
    case True
    with Cons.prems(2) have le: "Quantity p + groupCount ls f \<le> n"
      by (simp add: groupCount_Cons)
    with g have "\<not> Quantity p > n" and "min n (Quantity p) = Quantity p" by simp_all
    moreover from le have "groupCount ls f \<le> n - Quantity p" by simp
    from Cons.IH [OF nn this]
    have "removePacks f (n - Quantity p) ls = filter (\<lambda>p. Amount (Pack p) \<noteq> f) ls" .
    ultimately show ?thesis using True by simp
  qed
qed

lemma groupCount_filter:
  "groupCount (filter (\<lambda>p. Amount (Pack p) \<noteq> f) ls) s = (if s = f then 0 else groupCount ls s)"
  by (induction ls) (auto simp: groupCount_Cons)

lemma lineSizes_filter:
  "lineSizes (filter (\<lambda>p. Amount (Pack p) \<noteq> f) ls) = lineSizes ls - {f}"
  by (auto simp: lineSizes_def)

lemma incrementPack_None: "incrementPack t ls = None \<longleftrightarrow> t \<notin> lineSizes ls"
  by (induction ls) (auto simp: lineSizes_def)

lemma incrementPack_count:
  "incrementPack t ls = Some ls' \<Longrightarrow>
     groupCount ls' s = groupCount ls s + (if s = t then 1 else 0)"
proof (induction ls arbitrary: ls')
  case Nil
  then show ?case by simp
next
  case (Cons p ls)
  show ?case
  proof (cases "Amount (Pack p) = t")
    case True
    with Cons.prems have "ls' = p\<lparr>Quantity := Quantity p + 1\<rparr> # ls" by simp
    with True show ?thesis by (simp add: groupCount_Cons)
  next
    case False
    with Cons.prems obtain qs where q: "incrementPack t ls = Some qs" "ls' = p # qs"
      by auto
    from Cons.IH [OF q(1)] q(2) False show ?thesis by (simp add: groupCount_Cons)
  qed
qed

lemma incrementPack_positive:
  "incrementPack t ls = Some ls' \<Longrightarrow>
     \<forall>p \<in> set ls. 0 < Quantity p \<and> 0 < Amount (Pack p) \<Longrightarrow>
     \<forall>p \<in> set ls'. 0 < Quantity p \<and> 0 < Amount (Pack p)"
proof (induction ls arbitrary: ls')
  case Nil
  then show ?case by simp
next
  case (Cons p ls)
  show ?case
  proof (cases "Amount (Pack p) = t")
    case True
    with Cons.prems(1) have "ls' = p\<lparr>Quantity := Quantity p + 1\<rparr> # ls" by simp
    with Cons.prems(2) show ?thesis by simp
  next
    case False
    with Cons.prems(1) obtain qs where q: "incrementPack t ls = Some qs" "ls' = p # qs"
      by auto
    from Cons.prems(2) have "\<forall>p \<in> set ls. 0 < Quantity p \<and> 0 < Amount (Pack p)" by simp
    from Cons.IH [OF q(1) this] q(2) Cons.prems(2) show ?thesis by simp
  qed
qed

text \<open>What a merge of the whole group of \<open>h\<close> into \<open>T\<close> leaves.\<close>

lemma mergePack_whole_group:
  assumes pos: "\<forall>p \<in> set (Packs ord). 0 < Quantity p \<and> 0 < Amount (Pack p)"
    and T: "0 < T" and hT: "h \<noteq> T"
  defines "ls' \<equiv> Packs (mergePack ord h T (groupCount (Packs ord) h))"
  shows "lineSizes ls' = insert T (lineSizes (Packs ord) - {h})"
    and "groupCount ls' s = (if s = h then 0 else groupCount (Packs ord) s) + (if s = T then 1 else 0)"
    and "\<forall>p \<in> set ls'. 0 < Quantity p \<and> 0 < Amount (Pack p)"
proof -
  let ?ls = "Packs ord"
  let ?f = "filter (\<lambda>p. Amount (Pack p) \<noteq> h) ?ls"
  from pos have nn: "\<forall>p \<in> set ?ls. 0 \<le> Quantity p" by auto
  have rem: "removePacks h (groupCount ?ls h) ?ls = ?f"
    by (rule removePacks_all [OF nn]) simp
  have fpos: "\<forall>p \<in> set ?f. 0 < Quantity p \<and> 0 < Amount (Pack p)" using pos by simp
  show "lineSizes ls' = insert T (lineSizes ?ls - {h})"
    and "groupCount ls' s = (if s = h then 0 else groupCount ?ls s) + (if s = T then 1 else 0)"
    and "\<forall>p \<in> set ls'. 0 < Quantity p \<and> 0 < Amount (Pack p)"
  proof (atomize (full), cases "incrementPack T ?f")
    case None
    then have e: "ls' = ?f @ [\<lparr>Quantity = 1, Pack = \<lparr>Amount = T\<rparr>\<rparr>]"
      by (simp add: ls'_def mergePack_def rem)
    from e fpos T show "lineSizes ls' = insert T (lineSizes ?ls - {h}) \<and>
      groupCount ls' s = (if s = h then 0 else groupCount ?ls s) + (if s = T then 1 else 0) \<and>
      (\<forall>p \<in> set ls'. 0 < Quantity p \<and> 0 < Amount (Pack p))"
      by (auto simp: groupCount_append groupCount_Cons groupCount_filter lineSizes_def)
  next
    case (Some qs)
    then have e: "ls' = qs" by (simp add: ls'_def mergePack_def rem)
    from Some have "T \<in> lineSizes ?f" using incrementPack_None [of T ?f] by auto
    with incrementPack_sizes [OF Some] have "lineSizes qs = insert T (lineSizes ?ls - {h})"
      by (auto simp: lineSizes_filter)
    with incrementPack_count [OF Some, of s] incrementPack_positive [OF Some fpos] e
    show "lineSizes ls' = insert T (lineSizes ?ls - {h}) \<and>
      groupCount ls' s = (if s = h then 0 else groupCount ?ls s) + (if s = T then 1 else 0) \<and>
      (\<forall>p \<in> set ls'. 0 < Quantity p \<and> 0 < Amount (Pack p))"
      by (simp add: groupCount_filter)
  qed
qed

lemma mergeInv_step:
  assumes inv: "mergeInv C h (Packs ord)" and C: "\<forall>T \<in> C. 0 < T"
    and hot: "hotTarget av h (Packs ord) = Some T" and av: "Amount ` set av \<subseteq> C"
  shows "mergeInv C T (Packs (mergePack ord h T (go_quo T h)))" and "h < T" and "T \<in> C"
proof -
  let ?ls = "Packs ord"
  from hotTarget_Some [OF hot] av
  have h: "h \<in> lineSizes ?ls" and TC: "T \<in> C" and q: "qualifies T (h, groupCount ?ls h)"
    by auto
  from C TC have T: "0 < T" by simp
  from hot_exact [OF inv h TC T q] have quo: "go_quo T h = groupCount ?ls h" and lt: "h < T" .
  from inv have pos: "\<forall>p \<in> set ?ls. 0 < Quantity p \<and> 0 < Amount (Pack p)"
    by (simp add: mergeInv_def)
  from lt have ne: "h \<noteq> T" by simp
  let ?ls' = "Packs (mergePack ord h T (groupCount ?ls h))"
  note m = mergePack_whole_group [OF pos T ne]
  have "\<forall>s \<in> lineSizes ?ls'. \<forall>T' \<in> C. s < T' \<longrightarrow>
          groupCount ?ls' s * s < (if s = T then T' + T else T')"
  proof (intro ballI impI)
    fix s T' assume s: "s \<in> lineSizes ?ls'" and T': "T' \<in> C" and sT: "s < T'"
    show "groupCount ?ls' s * s < (if s = T then T' + T else T')"
    proof (cases "s = T")
      case True
      have "groupCount ?ls T * T < T'"
      proof (cases "T \<in> lineSizes ?ls")
        case True
        from mergeInv_bound [OF inv True T'] sT \<open>s = T\<close> ne show ?thesis by auto
      next
        case False
        from groupCount_absent [OF False] C T' show ?thesis by simp
      qed
      with True ne show ?thesis by (simp add: m(2) algebra_simps)
    next
      case False
      with s have s': "s \<in> lineSizes ?ls" "s \<noteq> h" by (auto simp: m(1))
      from mergeInv_bound [OF inv s'(1) T' sT] s'(2) False show ?thesis
        by (simp add: m(2))
    qed
  qed
  with m(3) show "mergeInv C T (Packs (mergePack ord h T (go_quo T h)))"
    by (simp add: mergeInv_def quo)
  from lt show "h < T" .
  from TC show "T \<in> C" .
qed

text \<open>The rounds of \<open>mergePacks\<close> under the invariant.\<close>

lemma mergePacks_loop_stable:
  assumes "mergeInv C h (Packs ord)" and "hotTarget av h (Packs ord) = None"
    and "\<forall>j g. set (r j g) = set g" and "\<forall>t \<in> set av. Amount t \<in> C \<and> 0 < Amount t"
  shows "tryMergeSameSizePacks r av ord = Inr (False, ord)"
    and "tryMergeDifferentSizePacks av ord = Inr ord"
proof -
  from tryMergeSameSizePacks_hot [OF assms(1,3,4)] assms(2)
  show "tryMergeSameSizePacks r av ord = Inr (False, ord)" by simp
  from assms(4) have "\<forall>t \<in> set av. t \<in> set av \<and> Amount t \<in> C \<and> 0 < Amount t" by simp
  from tryMergeDifferentSizePacks_stable [OF assms(1,2) this]
  show "tryMergeDifferentSizePacks av ord = Inr ord" .
qed

lemma mergePacks_loop_fixed:
  assumes "mergeInv C h (Packs ord)" and "hotTarget av h (Packs ord) = None"
    and "iter_ok \<rho>" and "\<forall>t \<in> set av. Amount t \<in> C \<and> 0 < Amount t"
  shows "mergePacks_loop \<rho> i n av ord = Inr ord"
proof (induction n arbitrary: i)
  case 0
  show ?case by simp
next
  case (Suc n)
  from assms(3) have r: "\<forall>j g. set (\<rho> i j g) = set g" by (simp add: iter_ok_set)
  from mergePacks_loop_stable [OF assms(1,2) r assms(4)] Suc.IH [of "Suc i"]
  show ?case by simp
qed


lemma above_decreases:
  assumes "finite C" and "T \<in> C" and "h < (T::int)"
  shows "card {T' \<in> C. T < T'} < card {T' \<in> C. h < T'}"
proof (rule psubset_card_mono)
  from assms(1) show "finite {T' \<in> C. h < T'}" by simp
  from assms(2,3) show "{T' \<in> C. T < T'} \<subset> {T' \<in> C. h < T'}" by auto
qed

lemma mergePacks_loop_reaches_fixpoint:
  assumes "iter_ok \<rho>" and C: "\<forall>T \<in> C. 0 < T" and av: "Amount ` set av \<subseteq> C" and fin: "finite C"
  shows "mergeInv C h (Packs ord) \<Longrightarrow> card {T \<in> C. h < T} < n \<Longrightarrow>
         \<exists>ord' h'. mergePacks_loop \<rho> i n av ord = Inr ord' \<and>
           mergeInv C h' (Packs ord') \<and> hotTarget av h' (Packs ord') = None"
proof (induction n arbitrary: i h ord)
  case 0
  then show ?case by simp
next
  case (Suc n)
  from C av have avC: "\<forall>t \<in> set av. Amount t \<in> C \<and> 0 < Amount t" by auto
  from assms(1) have r: "\<forall>j g. set (\<rho> i j g) = set g" by (simp add: iter_ok_set)
  note s = tryMergeSameSizePacks_hot [OF Suc.prems(1) r avC]
  show ?case
  proof (cases "hotTarget av h (Packs ord)")
    case None
    from mergePacks_loop_stable(2) [OF Suc.prems(1) None r avC]
      mergePacks_loop_fixed [OF Suc.prems(1) None assms(1) avC, of "Suc i" n] s None
    have "mergePacks_loop \<rho> i (Suc n) av ord = Inr ord" by simp
    with Suc.prems(1) None show ?thesis by blast
  next
    case (Some T)
    let ?ord' = "mergePack ord h T (go_quo T h)"
    note st = mergeInv_step [OF Suc.prems(1) C Some av]
    from above_decreases [OF fin st(3,2)] Suc.prems(2)
    have "card {T' \<in> C. T < T'} < n" by simp
    from Suc.IH [OF st(1) this, of "Suc i"] s Some show ?thesis by simp
  qed
qed

subsection \<open>The tie-break policy of one consolidation step\<close>









subsection \<open>Determinism and idempotence\<close>

lemma greedy_lineSizes:
  "lineSizes (map orderLine (fst (greedyFill ss r))) \<subseteq> set ss"
proof
  fix s assume "s \<in> lineSizes (map orderLine (fst (greedyFill ss r)))"
  then obtain l where l: "l \<in> set (fst (greedyFill ss r))" "s = snd l"
    by (auto simp: lineSizes_def orderLine_def)
  then have "(fst l, snd l) \<in> set (fst (greedyFill ss r))" by simp
  from greedyFill_lines [OF this] l(2) show "s \<in> set ss" by simp
qed

lemma groupCount_orderLine_Cons:
  "groupCount (orderLine (q, s') # ls) s = (if s' = s then q else 0) + groupCount ls s"
  by (simp add: groupCount_Cons orderLine_def)

lemma greedy_bound:
  assumes "sorted_wrt (>) ss" and "\<forall>s \<in> set ss. 0 < s" and "\<forall>T \<in> U. r < T \<and> 0 < T"
  shows "\<forall>T \<in> U \<union> set ss. \<forall>s. s < T \<longrightarrow>
           groupCount (map orderLine (fst (greedyFill ss r))) s * s < T"
  using assms
proof (induction ss arbitrary: r U)
  case Nil
  then show ?case by simp
next
  case (Cons s' ss)
  from Cons.prems have below: "\<forall>x \<in> set ss. x < s'" and sorted: "sorted_wrt (>) ss"
    and pos: "0 < s'" and rest: "\<forall>s \<in> set ss. 0 < s" by simp_all
  show ?case
  proof (cases "s' \<le> r \<and> 0 < r div s'")
    case False
    with pos have "r < s'" by (simp add: pos_imp_zdiv_pos_iff)
    with Cons.prems(3) pos have U': "\<forall>T \<in> insert s' U. r < T \<and> 0 < T" by simp
    from Cons.IH [OF sorted rest U'] show ?thesis
      unfolding greedyFill_skip [OF False] by simp
  next
    case True
    let ?r' = "r - r div s' * s'"
    let ?GL = "map orderLine (fst (greedyFill ss ?r'))"
    have m: "?r' = r mod s'" by (simp add: minus_div_mult_eq_mod)
    from pos have b: "0 \<le> r mod s'" "r mod s' < s'" by simp_all
    from True b have le: "r mod s' \<le> r" by linarith
    with Cons.prems(3) pos b m have U': "\<forall>T \<in> insert s' U. ?r' < T \<and> 0 < T" by auto
    note IH = Cons.IH [OF sorted rest U']
    have absent: "groupCount ?GL s' = 0"
    proof (rule groupCount_absent)
      from greedy_lineSizes [of ss ?r'] below show "s' \<notin> lineSizes ?GL" by auto
    qed
    have qs: "r div s' * s' \<le> r" using b(1) m by linarith
    have eq: "map orderLine (fst (greedyFill (s' # ss) r)) = orderLine (r div s', s') # ?GL"
      using True by (simp add: greedyFill_take del: greedyFill.simps)
    show ?thesis
    proof (intro ballI allI impI)
      fix T s assume T: "T \<in> U \<union> set (s' # ss)" and sT: "s < T"
      show "groupCount (map orderLine (fst (greedyFill (s' # ss) r))) s * s < T"
      proof (cases "s = s'")
        case True
        with T sT below have "T \<in> U" by auto
        with Cons.prems(3) have "r < T" by simp
        with qs True absent show ?thesis
          unfolding eq by (simp add: groupCount_orderLine_Cons)
      next
        case False
        from T have "T \<in> insert s' U \<union> set ss" by auto
        with IH sT have "groupCount ?GL s * s < T" by blast
        with False show ?thesis unfolding eq by (simp add: groupCount_orderLine_Cons)
      qed
    qed
  qed
qed

lemma rawOrder_mergeInv:
  assumes ne: "ps \<noteq> []" and sorted: "sorted_wrt (>) (map Amount ps)"
    and pos: "\<forall>p \<in> set ps. 0 < Amount p"
  shows "mergeInv (Amount ` set ps) (Amount (last ps)) (Packs (rawOrder ps R))"
proof -
  let ?ss = "map Amount ps" and ?h = "Amount (last ps)"
  obtain ls r where g: "greedyFill ?ss R = (ls, r)" by (cases "greedyFill ?ss R")
  let ?GL = "map orderLine ls"
  let ?EX = "map orderLine (if r > 0 then [(1, ?h)] else [])"
  have lines: "Packs (rawOrder ps R) = ?GL @ ?EX" by (simp add: rawOrder_def g Let_def)
  from pos have pos': "\<forall>s \<in> set ?ss. 0 < s" by simp
  from ne pos have h: "0 < ?h" by simp
  have glpos: "\<forall>p \<in> set ?GL. 0 < Quantity p \<and> 0 < Amount (Pack p)"
  proof
    fix p assume "p \<in> set ?GL"
    then obtain l where l: "l \<in> set ls" "p = orderLine l" by auto
    with g have "(fst l, snd l) \<in> set (fst (greedyFill ?ss R))" by simp
    from greedyFill_lines [OF this] pos' l(2)
    show "0 < Quantity p \<and> 0 < Amount (Pack p)" by (auto simp: orderLine_def)
  qed
  with h have allpos: "\<forall>p \<in> set (?GL @ ?EX). 0 < Quantity p \<and> 0 < Amount (Pack p)"
    by (auto simp: orderLine_def)
  from greedy_bound [OF sorted pos', of "{}" R] g
  have gb: "\<forall>T \<in> set ?ss. \<forall>s. s < T \<longrightarrow> groupCount ?GL s * s < T" by simp
  have ex: "\<And>s. groupCount ?EX s = (if r > 0 \<and> s = ?h then 1 else 0)"
    by (simp add: groupCount_Cons orderLine_def)
  have "\<forall>s \<in> lineSizes (?GL @ ?EX). \<forall>T \<in> Amount ` set ps. s < T \<longrightarrow>
          groupCount (?GL @ ?EX) s * s < (if s = ?h then T + ?h else T)"
  proof (intro ballI impI)
    fix s T assume T: "T \<in> Amount ` set ps" and sT: "s < T"
    with gb have b: "groupCount ?GL s * s < T" by auto
    show "groupCount (?GL @ ?EX) s * s < (if s = ?h then T + ?h else T)"
    proof (cases "s = ?h")
      case True
      with b h show ?thesis by (simp add: groupCount_append ex algebra_simps)
    next
      case False
      with b show ?thesis by (simp add: groupCount_append ex)
    qed
  qed
  with allpos show ?thesis unfolding lines mergeInv_def by blast
qed

lemma sortedPacks_strict:
  "distinct (map Amount (packs s)) \<Longrightarrow> sorted_wrt (>) (map Amount (sortedPacks s))"
  by (simp add: strict_desc_iff sortedPacks_def distinct_amounts_sort_key)

lemma mergePacks_sortedPacks:
  "mergePacks \<rho> (sortedPacks s) ord =
     mergePacks_loop \<rho> 0 (length (packs s)) (getSortedPackSizes (sortedPacks s)) ord"
  by (simp add: mergePacks_def Let_def getSortedPackSizes_def sortedPacks_def)

lemma available_amounts:
  "Amount ` set (getSortedPackSizes (sortedPacks s)) = Amount ` set (packs s)"
  by (simp add: getSortedPackSizes_def sortedPacks_def)



text \<open>
  Claim C6. Consolidation is idempotent on the orders \<open>CalculateOrder\<close> returns: for a
  non-empty catalog of distinct positive amounts and \<open>R > 0\<close>, running \<open>mergePacks\<close>
  again on the returned order with the same catalog, under any enumeration order of the
  maps, returns that order unchanged.
\<close>

theorem mergePacks_idempotent:
  assumes "packs s \<noteq> []" and "distinct (map Amount (packs s))"
    and "\<forall>p \<in> set (packs s). 0 < Amount p" and "0 < R"
    and "iter_ok \<rho>" and "iter_ok \<rho>'" and "1 \<le> SoftLimit"
  shows "\<exists>ord s'. CalculateOrder \<rho> SoftLimit s R = (Inr ord, s') \<and>
           mergePacks \<rho>' (getPacks s') ord = Inr ord"
proof -
  let ?ps = "sortedPacks s" and ?C = "Amount ` set (packs s)"
  let ?av = "getSortedPackSizes ?ps"
  from assms(1) have "length ?ps \<noteq> 0" by (simp add: sortedPacks_def)
  then have ne: "?ps \<noteq> []" by auto
  from assms(3) have pos: "\<forall>p \<in> set ?ps. 0 < Amount p" by (simp add: sortedPacks_def)
  from rawOrder_mergeInv [OF ne sortedPacks_strict [OF assms(2)] pos, of R]
  have inv: "mergeInv ?C (Amount (last ?ps)) (Packs (rawOrder ?ps R))"
    by (simp add: sortedPacks_props(1))
  from assms(3) have C: "\<forall>T \<in> ?C. 0 < T" by auto
  have av: "Amount ` set ?av \<subseteq> ?C" by (simp add: available_amounts)
  with C have avC: "\<forall>t \<in> set ?av. Amount t \<in> ?C \<and> 0 < Amount t" by auto
  have fin: "finite ?C" by simp
  from ne have "Amount (last ?ps) \<in> ?C" using sortedPacks_props(1) [of s] last_in_set [OF ne]
    by blast
  then have "{T \<in> ?C. Amount (last ?ps) < T} \<subset> ?C" by auto
  with fin have "card {T \<in> ?C. Amount (last ?ps) < T} < card ?C" by (rule psubset_card_mono)
  also have "card ?C \<le> length (packs s)" by (rule card_image_le [THEN le_trans]) (simp_all add: card_length)
  finally have small: "card {T \<in> ?C. Amount (last ?ps) < T} < length (packs s)" .
  from mergePacks_loop_reaches_fixpoint [OF assms(5) C av fin inv small, of 0]
  obtain ord h' where m: "mergePacks \<rho> ?ps (rawOrder ?ps R) = Inr ord"
    and inv': "mergeInv ?C h' (Packs ord)" and stable: "hotTarget ?av h' (Packs ord) = None"
    unfolding mergePacks_sortedPacks by blast
  from appendOrder_total [OF assms(7)] obtain s' where a: "appendOrder SoftLimit (resortPacks s) ord = Inr s'"
    by blast
  from m a have c: "CalculateOrder \<rho> SoftLimit s R = (Inr ord, s')"
    by (simp add: CalculateOrder_raw [OF assms(1,3)])
  from a have "packs s' = packs (resortPacks s)"
    by (auto simp: appendOrder_def Let_def split: if_splits)
  then have "getPacks s' = ?ps"
    using getPacks_resortPacks [of s] by (simp add: getPacks_def)
  moreover from mergePacks_loop_fixed [OF inv' stable assms(6) avC, of 0 "length (packs s)"]
  have "mergePacks \<rho>' ?ps ord = Inr ord" unfolding mergePacks_sortedPacks .
  ultimately show ?thesis using c by simp
qed

theorem mergePacks_idempotent_witness:
  "\<exists>ord s'. CalculateOrder asStored 20 (storageOf [1000, 500, 250]) 751 = (Inr ord, s') \<and>
      Packs ord = [\<lparr>Quantity = 1, Pack = \<lparr>Amount = 1000\<rparr>\<rparr>] \<and>
      mergePacks (\<lambda>i j g. rev g) (getPacks s') ord = Inr ord"
proof -
  let ?s = "storageOf [1000, 500, 250]"
  have h1: "packs ?s \<noteq> []" by (simp add: storageOf_def)
  have h2: "distinct (map Amount (packs ?s))" by (simp add: storageOf_def)
  have h3: "\<forall>p \<in> set (packs ?s). 0 < Amount p" by (simp add: storageOf_def)
  have h4: "(0::int) < 751" by simp
  have h6: "iter_ok (\<lambda>i j g. rev g)" by (simp add: iter_ok_def)
  have h7: "(1::int) \<le> 20" by simp
  have e: "fst (CalculateOrder asStored 20 ?s 751) =
     Inr \<lparr>RequestedItems = 751, OverpackedItems = 249, TotalItems = 1000,
          Packs = [\<lparr>Quantity = 1, Pack = \<lparr>Amount = 1000\<rparr>\<rparr>]\<rparr>"
    by code_simp
  from mergePacks_idempotent [OF h1 h2 h3 h4 iter_ok_asStored h6 h7]
  obtain ord s' where c: "CalculateOrder asStored 20 ?s 751 = (Inr ord, s')"
    and m: "mergePacks (\<lambda>i j g. rev g) (getPacks s') ord = Inr ord" by blast
  from c e have "Packs ord = [\<lparr>Quantity = 1, Pack = \<lparr>Amount = 1000\<rparr>\<rparr>]" by simp
  with c m show ?thesis by blast
qed

subsection \<open>Duplicate lines of the smallest pack size\<close>

lemma tryMergeSameSizePacks_unique:
  assumes "\<forall>e \<in> set (sizeGroups (Packs ord)). fst e \<noteq> 0"
    and "\<forall>j g. set (r j g) = set g"
    and "\<forall>t \<in> set av. \<forall>e \<in> set (sizeGroups (Packs ord)). qualifies (Amount t) e \<longrightarrow> fst e = h"
  shows "tryMergeSameSizePacks r av ord =
           Inr (case find (\<lambda>T. \<exists>e \<in> set (sizeGroups (Packs ord)). qualifies T e) (map Amount av) of
                  None \<Rightarrow> (False, ord)
                | Some T \<Rightarrow> (True, mergePack ord h T (go_quo T h)))"
proof -
  from assms(2) have r: "\<forall>j. set (r j (sizeGroups (Packs ord))) = set (sizeGroups (Packs ord))"
    by simp
  from tryMergeSameSizePacks_loop_unique [where r = r and g = "sizeGroups (Packs ord)",
      OF assms(1) r assms(3)]
  show ?thesis by (simp add: tryMergeSameSizePacks_def)
qed

text \<open>
  Claim C1, at the catalog {250} and the requested quantity 300. Greedy fill takes one
  pack of 250 and leaves 50, residual addition appends a second line of one pack of 250,
  and no larger catalog size exists to merge them into: the order returned has two lines
  of pack size 250, under every enumeration order of the map.
\<close>

theorem CalculateOrder_duplicate_lines:
  assumes "iter_ok \<rho>"
  shows "\<exists>ord. fst (CalculateOrder \<rho> 20 (storageOf [250]) 300) = Inr ord \<and>
           Packs ord = [\<lparr>Quantity = 1, Pack = \<lparr>Amount = 250\<rparr>\<rparr>,
                        \<lparr>Quantity = 1, Pack = \<lparr>Amount = 250\<rparr>\<rparr>] \<and>
           \<not> distinct (map (\<lambda>p. Amount (Pack p)) (Packs ord))"
proof -
  let ?s = "storageOf [250]"
  let ?ps = "[\<lparr>Amount = 250\<rparr>]"
  let ?ord = "\<lparr>RequestedItems = 300, OverpackedItems = 200, TotalItems = 500,
                Packs = [\<lparr>Quantity = 1, Pack = \<lparr>Amount = 250\<rparr>\<rparr>,
                         \<lparr>Quantity = 1, Pack = \<lparr>Amount = 250\<rparr>\<rparr>]\<rparr>"
  have ne: "packs ?s \<noteq> []" and pos: "\<forall>p \<in> set (packs ?s). 0 < Amount p"
    by (simp_all add: storageOf_def)
  have ps: "sortedPacks ?s = ?ps" by (simp add: sortedPacks_def storageOf_def)
  have raw: "rawOrder ?ps 300 = ?ord" by code_simp
  have inv: "mergeInv (Amount ` set ?ps) (Amount (last ?ps)) (Packs (rawOrder ?ps 300))"
    by (rule rawOrder_mergeInv) simp_all
  have av: "getSortedPackSizes ?ps = ?ps" by (simp add: getSortedPackSizes_def)
  have none: "hotTarget ?ps 250 (Packs ?ord) = None"
    by (simp add: hotTarget_def qualifies_def)
  from mergePacks_loop_fixed [OF _ none assms, of "{250}" 0 1] inv
  have "mergePacks \<rho> ?ps ?ord = Inr ?ord"
    by (simp add: mergePacks_def av raw)
  moreover from appendOrder_total [of 20 "resortPacks ?s" ?ord]
  obtain s' where "appendOrder 20 (resortPacks ?s) ?ord = Inr s'" by auto
  ultimately have "fst (CalculateOrder \<rho> 20 ?s 300) = Inr ?ord"
    by (simp add: CalculateOrder_raw [OF ne pos] ps raw)
  then show ?thesis by simp
qed

theorem CalculateOrder_duplicate_lines_witness:
  "iter_ok asStored \<and>
   fst (CalculateOrder asStored 20 (storageOf [250]) 300) =
     Inr \<lparr>RequestedItems = 300, OverpackedItems = 200, TotalItems = 500,
          Packs = [\<lparr>Quantity = 1, Pack = \<lparr>Amount = 250\<rparr>\<rparr>,
                   \<lparr>Quantity = 1, Pack = \<lparr>Amount = 250\<rparr>\<rparr>]\<rparr> \<and>
   (\<exists>ord. fst (CalculateOrder asStored 20 (storageOf [250]) 300) = Inr ord \<and>
           Packs ord = [\<lparr>Quantity = 1, Pack = \<lparr>Amount = 250\<rparr>\<rparr>,
                        \<lparr>Quantity = 1, Pack = \<lparr>Amount = 250\<rparr>\<rparr>] \<and>
           \<not> distinct (map (\<lambda>p. Amount (Pack p)) (Packs ord)))"
proof -
  have "fst (CalculateOrder asStored 20 (storageOf [250]) 300) =
     Inr \<lparr>RequestedItems = 300, OverpackedItems = 200, TotalItems = 500,
          Packs = [\<lparr>Quantity = 1, Pack = \<lparr>Amount = 250\<rparr>\<rparr>,
                   \<lparr>Quantity = 1, Pack = \<lparr>Amount = 250\<rparr>\<rparr>]\<rparr>"
    by code_simp
  with CalculateOrder_duplicate_lines [OF iter_ok_asStored] iter_ok_asStored
  show ?thesis by blast
qed

text \<open>
  \<open>mergePacks\<close> called outside \<open>CalculateOrder\<close>, on lines that greedy fill and
  residual addition never produce: the catalog {250, 500} and the lines 3 x 250,
  1 x 250 (1000 items), where the first of two lines of one size holds more units
  than the merge takes. \<open>mergePack\<close> takes two units from the first line, then
  subtracts the decremented quantity of that line, 1, from the units still to remove,
  and so removes the second line too. The lines left are 1 x 250, 1 x 500: 750 items,
  under every enumeration order of the map. \<open>mergePacks\<close> is not exported and
  \<open>CalculateOrder\<close> is its one caller in the program, where every merge takes a whole
  group (\<open>mergePack_whole_group\<close>).
\<close>

lemma mergePacks_split_group:
  assumes "iter_ok \<rho>"
  shows "\<exists>ord'.
           mergePacks \<rho> [\<lparr>Amount = 250\<rparr>, \<lparr>Amount = 500\<rparr>]
             \<lparr>RequestedItems = 1000, OverpackedItems = 0, TotalItems = 1000,
              Packs = [\<lparr>Quantity = 3, Pack = \<lparr>Amount = 250\<rparr>\<rparr>,
                       \<lparr>Quantity = 1, Pack = \<lparr>Amount = 250\<rparr>\<rparr>]\<rparr> = Inr ord' \<and>
           Packs ord' = [\<lparr>Quantity = 1, Pack = \<lparr>Amount = 250\<rparr>\<rparr>,
                         \<lparr>Quantity = 1, Pack = \<lparr>Amount = 500\<rparr>\<rparr>] \<and>
           sumItems [\<lparr>Quantity = 3, Pack = \<lparr>Amount = 250\<rparr>\<rparr>,
                     \<lparr>Quantity = 1, Pack = \<lparr>Amount = 250\<rparr>\<rparr>] = 1000 \<and>
           sumItems (Packs ord') = 750"
proof -
  let ?av = "[\<lparr>Amount = 250\<rparr>, \<lparr>Amount = 500\<rparr>]"
  let ?o0 = "\<lparr>RequestedItems = 1000, OverpackedItems = 0, TotalItems = 1000,
            Packs = [\<lparr>Quantity = 3, Pack = \<lparr>Amount = 250\<rparr>\<rparr>,
                     \<lparr>Quantity = 1, Pack = \<lparr>Amount = 250\<rparr>\<rparr>]\<rparr>"
  let ?o1 = "\<lparr>RequestedItems = 1000, OverpackedItems = 0, TotalItems = 1000,
              Packs = [\<lparr>Quantity = 1, Pack = \<lparr>Amount = 250\<rparr>\<rparr>,
                       \<lparr>Quantity = 1, Pack = \<lparr>Amount = 500\<rparr>\<rparr>]\<rparr>"
  from assms have r: "\<forall>j g. set (\<rho> i j g) = set g" for i by (simp add: iter_ok_set)
  have g0: "sizeGroups [\<lparr>Quantity = 3, Pack = \<lparr>Amount = 250\<rparr>\<rparr>,
                        \<lparr>Quantity = 1, Pack = \<lparr>Amount = 250\<rparr>\<rparr>] = [(250, 4)]"
    by (simp add: sizeGroups_def)
  have g1: "sizeGroups [\<lparr>Quantity = 1, Pack = \<lparr>Amount = 250\<rparr>\<rparr>,
                        \<lparr>Quantity = 1, Pack = \<lparr>Amount = 500\<rparr>\<rparr>] = [(250, 1), (500, 1)]"
    by (simp add: sizeGroups_def)
  have q: "go_quo 500 250 = 2" "go_rem 500 250 = 0" by (simp_all add: go_quo_def go_rem_def)
  have m: "mergePack ?o0 250 500 2 = ?o1" by (simp add: mergePack_def)
  have "tryMergeSameSizePacks (\<rho> 0) ?av ?o0 =
      Inr (case find (\<lambda>T. \<exists>e \<in> set (sizeGroups (Packs ?o0)). qualifies T e) (map Amount ?av) of
             None \<Rightarrow> (False, ?o0)
           | Some T \<Rightarrow> (True, mergePack ?o0 250 T (go_quo T 250)))"
    by (rule tryMergeSameSizePacks_unique [OF _ r]) (simp_all add: g0)
  then have s0: "tryMergeSameSizePacks (\<rho> 0) ?av ?o0 = Inr (True, ?o1)"
    by (simp add: g0 qualifies_def q m)
  have "tryMergeSameSizePacks (\<rho> (Suc 0)) ?av ?o1 =
      Inr (case find (\<lambda>T. \<exists>e \<in> set (sizeGroups (Packs ?o1)). qualifies T e) (map Amount ?av) of
             None \<Rightarrow> (False, ?o1)
           | Some T \<Rightarrow> (True, mergePack ?o1 250 T (go_quo T 250)))"
    by (rule tryMergeSameSizePacks_unique [OF _ r]) (simp_all add: g1 qualifies_def q)
  then have s1: "tryMergeSameSizePacks (\<rho> (Suc 0)) ?av ?o1 = Inr (False, ?o1)"
    by (simp add: g1 qualifies_def q)
  have d1: "tryMergeDifferentSizePacks ?av ?o1 = Inr ?o1" by (simp add: q)
  have "mergePacks_loop \<rho> 0 (Suc (Suc 0)) ?av ?o0 = Inr ?o1"
    by (simp add: s0 s1 d1 del: tryMergeDifferentSizePacks.simps)
  then have "mergePacks \<rho> ?av ?o0 = Inr ?o1"
    by (simp add: mergePacks_def getSortedPackSizes_def)
  then show ?thesis by (simp add: sumItems_def lineItems_def)
qed

subsection \<open>Consolidation preserves the item total\<close>

lemma sumItems_Cons: "sumItems (p # ls) = Quantity p * Amount (Pack p) + sumItems ls"
  by (simp add: sumItems_def lineItems_def)

lemma sumItems_Nil [simp]: "sumItems [] = 0"
  by (simp add: sumItems_def)

lemma sumItems_append: "sumItems (xs @ ys) = sumItems xs + sumItems ys"
  by (simp add: sumItems_def)

lemma sumItems_filter:
  "sumItems (filter (\<lambda>p. Amount (Pack p) \<noteq> h) ls) = sumItems ls - groupCount ls h * h"
  by (induction ls) (simp_all add: sumItems_Cons groupCount_Cons algebra_simps)

lemma incrementPack_sum:
  "incrementPack t ls = Some ls' \<Longrightarrow> sumItems ls' = sumItems ls + t"
proof (induction ls arbitrary: ls')
  case Nil
  then show ?case by simp
next
  case (Cons p ls)
  show ?case
  proof (cases "Amount (Pack p) = t")
    case True
    with Cons.prems have "ls' = p\<lparr>Quantity := Quantity p + 1\<rparr> # ls" by simp
    with True show ?thesis by (simp add: sumItems_Cons algebra_simps)
  next
    case False
    with Cons.prems obtain qs where q: "incrementPack t ls = Some qs" "ls' = p # qs"
      by auto
    from Cons.IH [OF q(1)] q(2) show ?thesis by (simp add: sumItems_Cons)
  qed
qed

lemma mergePack_whole_group_sum:
  assumes "\<forall>p \<in> set (Packs ord). 0 < Quantity p \<and> 0 < Amount (Pack p)"
  shows "sumItems (Packs (mergePack ord h T (groupCount (Packs ord) h))) =
           sumItems (Packs ord) - groupCount (Packs ord) h * h + T"
proof -
  let ?ls = "Packs ord"
  let ?f = "filter (\<lambda>p. Amount (Pack p) \<noteq> h) ?ls"
  from assms have nn: "\<forall>p \<in> set ?ls. 0 \<le> Quantity p" by auto
  have rem: "removePacks h (groupCount ?ls h) ?ls = ?f"
    by (rule removePacks_all [OF nn]) simp
  show ?thesis
  proof (cases "incrementPack T ?f")
    case None
    then show ?thesis
      by (simp add: mergePack_def rem sumItems_append sumItems_Cons sumItems_filter)
  next
    case (Some qs)
    with incrementPack_sum [OF Some] show ?thesis
      by (simp add: mergePack_def rem sumItems_filter)
  qed
qed

lemma mergeInv_step_sum:
  assumes inv: "mergeInv C h (Packs ord)" and C: "\<forall>T \<in> C. 0 < T"
    and hot: "hotTarget av h (Packs ord) = Some T" and av: "Amount ` set av \<subseteq> C"
  shows "sumItems (Packs (mergePack ord h T (go_quo T h))) = sumItems (Packs ord)"
proof -
  let ?ls = "Packs ord"
  from hotTarget_Some [OF hot] av
  have h: "h \<in> lineSizes ?ls" and TC: "T \<in> C" and q: "qualifies T (h, groupCount ?ls h)"
    by auto
  from C TC have T: "0 < T" by simp
  from mergeInv_positive [OF inv h] have hp: "0 < h" .
  from hot_exact(1) [OF inv h TC T q] have quo: "go_quo T h = groupCount ?ls h" .
  with T hp have d: "T div h = groupCount ?ls h" by (simp add: go_quo_pos)
  from qualifies_arith(2) [OF hp T q] have "T = T div h * h"
    by (simp add: dvd_div_mult_self mod_0_imp_dvd)
  with d have e: "groupCount ?ls h * h = T" by simp
  from inv have pos: "\<forall>p \<in> set ?ls. 0 < Quantity p \<and> 0 < Amount (Pack p)"
    by (simp add: mergeInv_def)
  from mergePack_whole_group_sum [OF pos, of h T] e show ?thesis by (simp add: quo)
qed

lemma mergePacks_loop_sum:
  assumes "iter_ok \<rho>" and C: "\<forall>T \<in> C. 0 < T" and av: "Amount ` set av \<subseteq> C"
  shows "mergeInv C h (Packs ord) \<Longrightarrow> mergePacks_loop \<rho> i n av ord = Inr ord' \<Longrightarrow>
         sumItems (Packs ord') = sumItems (Packs ord)"
proof (induction n arbitrary: i h ord)
  case 0
  then show ?case by simp
next
  case (Suc n)
  from C av have avC: "\<forall>t \<in> set av. Amount t \<in> C \<and> 0 < Amount t" by auto
  from assms(1) have r: "\<forall>j g. set (\<rho> i j g) = set g" by (simp add: iter_ok_set)
  note s = tryMergeSameSizePacks_hot [OF Suc.prems(1) r avC]
  show ?case
  proof (cases "hotTarget av h (Packs ord)")
    case None
    from mergePacks_loop_stable(2) [OF Suc.prems(1) None r avC] s None Suc.prems(2)
    have "mergePacks_loop \<rho> (Suc i) n av ord = Inr ord'" by simp
    from Suc.IH [OF Suc.prems(1) this] show ?thesis .
  next
    case (Some T)
    let ?o1 = "mergePack ord h T (go_quo T h)"
    from s Some Suc.prems(2) have "mergePacks_loop \<rho> (Suc i) n av ?o1 = Inr ord'" by simp
    from Suc.IH [OF mergeInv_step(1) [OF Suc.prems(1) C Some av] this]
      mergeInv_step_sum [OF Suc.prems(1) C Some av]
    show ?thesis by simp
  qed
qed

text \<open>
  The order \<open>CalculateOrder\<close> hands to \<open>mergePacks\<close>, stage by stage.
\<close>

lemma stages_rawOrder:
  assumes "packs s \<noteq> []" and "\<forall>p \<in> set (packs s). 0 < Amount p"
  shows "\<exists>remaining order1 order2.
           useFullPacks (getPacks (resortPacks s)) (emptyOrder R) = Inr (remaining, order1) \<and>
           addPackForRemainingItems remaining (getPacks (resortPacks s)) order1 = Inr order2 \<and>
           order2\<lparr>OverpackedItems := wrap64 (TotalItems order2 - R)\<rparr> =
             rawOrder (sortedPacks s) R"
proof -
  let ?ps = "sortedPacks s"
  from assms(1) have "length ?ps \<noteq> 0" by (simp add: sortedPacks_def)
  then have ne: "?ps \<noteq> []" by auto
  from assms(2) have pos: "\<forall>p \<in> set ?ps. 0 < Amount p" by (simp add: sortedPacks_def)
  obtain ls r where g: "greedyFill (map Amount ?ps) R = (ls, r)"
    by (cases "greedyFill (map Amount ?ps) R")
  let ?o1 = "(emptyOrder R)\<lparr>Packs := Packs (emptyOrder R) @ map orderLine ls,
      TotalItems := TotalItems (emptyOrder R) + sumItems (map orderLine ls)\<rparr>"
  from useFullPacks_loop_greedy [OF pos, of R "emptyOrder R"] g
  have u: "useFullPacks (getPacks (resortPacks s)) (emptyOrder R) = Inr (r, ?o1)"
    by (simp add: useFullPacks_def getPacks_resortPacks emptyOrder_def)
  have "\<exists>o2. addPackForRemainingItems r (getPacks (resortPacks s)) ?o1 = Inr o2 \<and>
          o2\<lparr>OverpackedItems := wrap64 (TotalItems o2 - R)\<rparr> = rawOrder ?ps R"
  proof (cases "r \<le> 0")
    case True
    then show ?thesis
      by (simp add: addPackForRemainingItems_def rawOrder_def g emptyOrder_def Let_def)
  next
    case False
    with ne show ?thesis
      by (simp add: addPackForRemainingItems_def getPacks_resortPacks Let_def rawOrder_def g
          emptyOrder_def orderLine_def sumItems_def lineItems_def pack_eta)
  qed
  with u show ?thesis by blast
qed

text \<open>
  Claim C2. The order fed into the consolidation stage is the one greedy fill and
  residual addition build from a non-empty catalog of distinct positive pack sizes.
  On it \<open>mergePacks\<close> returns, whatever order the run time enumerates the map in; the
  sum of quantity times pack size over the lines is the same after as before, and so
  is \<open>TotalItems\<close>; and when no merge applies, that is when no size group of the order
  holds enough units to make up a pack of a larger catalog size that is a multiple of
  the group's size, the order is returned unchanged.
\<close>

theorem mergePacks_preserves_total:
  assumes "packs s \<noteq> []" and "distinct (map Amount (packs s))"
    and "\<forall>p \<in> set (packs s). 0 < Amount p" and "iter_ok \<rho>"
  shows "\<exists>remaining order1 order2 order3 order4.
           useFullPacks (getPacks (resortPacks s)) (emptyOrder R) = Inr (remaining, order1) \<and>
           addPackForRemainingItems remaining (getPacks (resortPacks s)) order1 = Inr order2 \<and>
           order3 = order2\<lparr>OverpackedItems := wrap64 (TotalItems order2 - R)\<rparr> \<and>
           mergePacks \<rho> (getPacks (resortPacks s)) order3 = Inr order4 \<and>
           sumItems (Packs order4) = sumItems (Packs order3) \<and>
           TotalItems order4 = TotalItems order3 \<and>
           ((\<forall>t \<in> set (packs s). \<forall>e \<in> set (sizeGroups (Packs order3)).
               \<not> qualifies (Amount t) e) \<longrightarrow> order4 = order3)"
proof -
  let ?ps = "sortedPacks s" and ?C = "Amount ` set (packs s)"
  let ?av = "getSortedPackSizes ?ps"
  let ?raw = "rawOrder ?ps R"
  let ?h = "Amount (last ?ps)"
  from assms(1) have "length ?ps \<noteq> 0" by (simp add: sortedPacks_def)
  then have ne: "?ps \<noteq> []" by auto
  from assms(3) have pos: "\<forall>p \<in> set ?ps. 0 < Amount p" by (simp add: sortedPacks_def)
  from stages_rawOrder [OF assms(1,3), of R] obtain r o1 o2 where
    u: "useFullPacks (getPacks (resortPacks s)) (emptyOrder R) = Inr (r, o1)"
    and a: "addPackForRemainingItems r (getPacks (resortPacks s)) o1 = Inr o2"
    and raw: "o2\<lparr>OverpackedItems := wrap64 (TotalItems o2 - R)\<rparr> = ?raw" by blast
  from rawOrder_mergeInv [OF ne sortedPacks_strict [OF assms(2)] pos, of R]
  have inv: "mergeInv ?C ?h (Packs ?raw)" by (simp add: sortedPacks_props(1))
  from assms(3) have C: "\<forall>T \<in> ?C. 0 < T" by auto
  then have nz: "0 \<notin> Amount ` set ?ps" by (force simp: sortedPacks_props(1))
  have av: "Amount ` set ?av \<subseteq> ?C" by (simp add: available_amounts)
  from inv have "0 \<notin> lineSizes (Packs ?raw)" by (auto simp: mergeInv_def lineSizes_def)
  from mergePacks_total [OF assms(4) nz this] obtain o4 where
    m: "mergePacks \<rho> ?ps ?raw = Inr o4" and f: "sameFields o4 ?raw" by blast
  from m have loop: "mergePacks_loop \<rho> 0 (length (packs s)) ?av ?raw = Inr o4"
    by (simp add: mergePacks_sortedPacks)
  from mergePacks_loop_sum [OF assms(4) C av inv loop]
  have sum: "sumItems (Packs o4) = sumItems (Packs ?raw)" .
  from f have total: "TotalItems o4 = TotalItems ?raw" by (simp add: sameFields_def)
  have same: "(\<forall>t \<in> set (packs s). \<forall>e \<in> set (sizeGroups (Packs ?raw)).
      \<not> qualifies (Amount t) e) \<longrightarrow> o4 = ?raw"
  proof
    assume none: "\<forall>t \<in> set (packs s). \<forall>e \<in> set (sizeGroups (Packs ?raw)).
      \<not> qualifies (Amount t) e"
    have "hotTarget ?av ?h (Packs ?raw) = None"
    proof (cases "?h \<in> lineSizes (Packs ?raw)")
      case False
      then show ?thesis by (simp add: hotTarget_def)
    next
      case True
      from sizeGroups_has [OF True]
      have e: "(?h, groupCount (Packs ?raw) ?h) \<in> set (sizeGroups (Packs ?raw))" .
      have "\<forall>T \<in> set (map Amount ?av). \<not> qualifies T (?h, groupCount (Packs ?raw) ?h)"
      proof
        fix T assume "T \<in> set (map Amount ?av)"
        then have "T \<in> ?C" using available_amounts [of s] by simp
        then obtain t where "t \<in> set (packs s)" "T = Amount t" by auto
        with none e show "\<not> qualifies T (?h, groupCount (Packs ?raw) ?h)" by blast
      qed
      with True show ?thesis by (simp add: hotTarget_def find_None_iff)
    qed
    moreover from C av have "\<forall>t \<in> set ?av. Amount t \<in> ?C \<and> 0 < Amount t" by auto
    ultimately have "mergePacks_loop \<rho> 0 (length (packs s)) ?av ?raw = Inr ?raw"
      using inv assms(4) by (intro mergePacks_loop_fixed)
    with loop show "o4 = ?raw" by simp
  qed
  let ?o3 = "o2\<lparr>OverpackedItems := wrap64 (TotalItems o2 - R)\<rparr>"
  note raw' = raw [symmetric]
  from m have m': "mergePacks \<rho> (getPacks (resortPacks s)) ?raw = Inr o4"
    by (simp add: getPacks_resortPacks)
  show ?thesis
  proof (intro exI conjI)
    show "useFullPacks (getPacks (resortPacks s)) (emptyOrder R) = Inr (r, o1)" by (rule u)
    show "addPackForRemainingItems r (getPacks (resortPacks s)) o1 = Inr o2" by (rule a)
    show "?o3 = o2\<lparr>OverpackedItems := wrap64 (TotalItems o2 - R)\<rparr>" by (rule refl)
    show "mergePacks \<rho> (getPacks (resortPacks s)) ?o3 = Inr o4"
      using m' unfolding raw' .
    show "sumItems (Packs o4) = sumItems (Packs ?o3)" using sum unfolding raw' .
    show "TotalItems o4 = TotalItems ?o3" using total unfolding raw' .
    show "(\<forall>t \<in> set (packs s). \<forall>e \<in> set (sizeGroups (Packs ?o3)).
        \<not> qualifies (Amount t) e) \<longrightarrow> o4 = ?o3" using same unfolding raw' .
  qed
qed

theorem mergePacks_preserves_total_witness:
  "distinct (map Amount (packs (storageOf [1000, 500, 250]))) \<and>
   list_all (\<lambda>p. 0 < Amount p) (packs (storageOf [1000, 500, 250])) \<and>
   iter_ok (\<lambda>i j g. rev g) \<and>
   (\<exists>remaining order1 order2 order3 order4.
      useFullPacks (getPacks (resortPacks (storageOf [1000, 500, 250]))) (emptyOrder 751) =
        Inr (remaining, order1) \<and>
      addPackForRemainingItems remaining (getPacks (resortPacks (storageOf [1000, 500, 250])))
        order1 = Inr order2 \<and>
      order3 = order2\<lparr>OverpackedItems := wrap64 (TotalItems order2 - 751)\<rparr> \<and>
      mergePacks (\<lambda>i j g. rev g) (getPacks (resortPacks (storageOf [1000, 500, 250]))) order3 =
        Inr order4 \<and>
      Packs order3 = [\<lparr>Quantity = 1, Pack = \<lparr>Amount = 500\<rparr>\<rparr>,
                      \<lparr>Quantity = 1, Pack = \<lparr>Amount = 250\<rparr>\<rparr>,
                      \<lparr>Quantity = 1, Pack = \<lparr>Amount = 250\<rparr>\<rparr>] \<and>
      Packs order4 = [\<lparr>Quantity = 1, Pack = \<lparr>Amount = 1000\<rparr>\<rparr>] \<and>
      sumItems (Packs order4) = sumItems (Packs order3) \<and>
      TotalItems order4 = TotalItems order3) \<and>
   distinct (map Amount (packs (storageOf [5000, 2000, 1000, 500, 250]))) \<and>
   list_all (\<lambda>p. 0 < Amount p) (packs (storageOf [5000, 2000, 1000, 500, 250])) \<and>
   (\<exists>remaining order1 order2 order3 order4.
      useFullPacks (getPacks (resortPacks (storageOf [5000, 2000, 1000, 500, 250])))
        (emptyOrder 1001) = Inr (remaining, order1) \<and>
      addPackForRemainingItems remaining
        (getPacks (resortPacks (storageOf [5000, 2000, 1000, 500, 250]))) order1 = Inr order2 \<and>
      order3 = order2\<lparr>OverpackedItems := wrap64 (TotalItems order2 - 1001)\<rparr> \<and>
      mergePacks (\<lambda>i j g. rev g)
        (getPacks (resortPacks (storageOf [5000, 2000, 1000, 500, 250]))) order3 = Inr order4 \<and>
      Packs order3 = [\<lparr>Quantity = 1, Pack = \<lparr>Amount = 1000\<rparr>\<rparr>,
                      \<lparr>Quantity = 1, Pack = \<lparr>Amount = 250\<rparr>\<rparr>] \<and>
      list_all (\<lambda>t. list_all (\<lambda>e. \<not> qualifies (Amount t) e) (sizeGroups (Packs order3)))
        (packs (storageOf [5000, 2000, 1000, 500, 250])) \<and>
      order4 = order3)"
proof -
  let ?A = "storageOf [1000, 500, 250]" and ?B = "storageOf [5000, 2000, 1000, 500, 250]"
  let ?r = "\<lambda>(i::nat) (j::nat) (g::groups). rev g"
  let ?LA = "[\<lparr>Quantity = 1, Pack = \<lparr>Amount = 500\<rparr>\<rparr>,
              \<lparr>Quantity = 1, Pack = \<lparr>Amount = 250\<rparr>\<rparr>,
              \<lparr>Quantity = 1, Pack = \<lparr>Amount = 250\<rparr>\<rparr>]"
  let ?LB = "[\<lparr>Quantity = 1, Pack = \<lparr>Amount = 1000\<rparr>\<rparr>,
              \<lparr>Quantity = 1, Pack = \<lparr>Amount = 250\<rparr>\<rparr>]"
  have r: "iter_ok ?r" by (simp add: iter_ok_def)
  have a1: "packs ?A \<noteq> []" and a2: "distinct (map Amount (packs ?A))"
    and a3: "\<forall>p \<in> set (packs ?A). 0 < Amount p" by (simp_all add: storageOf_def)
  have b1: "packs ?B \<noteq> []" and b2: "distinct (map Amount (packs ?B))"
    and b3: "\<forall>p \<in> set (packs ?B). 0 < Amount p" by (simp_all add: storageOf_def)
  from a3 have a3': "list_all (\<lambda>p. 0 < Amount p) (packs ?A)" by (simp add: list_all_iff)
  from b3 have b3': "list_all (\<lambda>p. 0 < Amount p) (packs ?B)" by (simp add: list_all_iff)
  have ua: "useFullPacks (getPacks (resortPacks ?A)) (emptyOrder 751) =
      Inr (1, \<lparr>RequestedItems = 751, OverpackedItems = 0, TotalItems = 750,
               Packs = [\<lparr>Quantity = 1, Pack = \<lparr>Amount = 500\<rparr>\<rparr>,
                        \<lparr>Quantity = 1, Pack = \<lparr>Amount = 250\<rparr>\<rparr>]\<rparr>)"
    by code_simp
  have aa: "addPackForRemainingItems 1 (getPacks (resortPacks ?A))
      \<lparr>RequestedItems = 751, OverpackedItems = 0, TotalItems = 750,
       Packs = [\<lparr>Quantity = 1, Pack = \<lparr>Amount = 500\<rparr>\<rparr>,
                \<lparr>Quantity = 1, Pack = \<lparr>Amount = 250\<rparr>\<rparr>]\<rparr> =
      Inr \<lparr>RequestedItems = 751, OverpackedItems = 0, TotalItems = 1000, Packs = ?LA\<rparr>"
    by code_simp
  have wa: "wrap64 (1000 - 751) = 249" by (simp add: wrap64_def)
  have ma: "mergePacks ?r (getPacks (resortPacks ?A))
      \<lparr>RequestedItems = 751, OverpackedItems = 249, TotalItems = 1000, Packs = ?LA\<rparr> =
      Inr \<lparr>RequestedItems = 751, OverpackedItems = 249, TotalItems = 1000,
           Packs = [\<lparr>Quantity = 1, Pack = \<lparr>Amount = 1000\<rparr>\<rparr>]\<rparr>"
    by code_simp
  from mergePacks_preserves_total [OF a1 a2 a3 r, of 751]
  obtain ra o1 o2 o3 o4 where
    A: "useFullPacks (getPacks (resortPacks ?A)) (emptyOrder 751) = Inr (ra, o1)"
      "addPackForRemainingItems ra (getPacks (resortPacks ?A)) o1 = Inr o2"
      "o3 = o2\<lparr>OverpackedItems := wrap64 (TotalItems o2 - 751)\<rparr>"
      "mergePacks ?r (getPacks (resortPacks ?A)) o3 = Inr o4"
      "sumItems (Packs o4) = sumItems (Packs o3)"
      "TotalItems o4 = TotalItems o3" by blast
  from A(1) ua have "ra = 1" and o1: "o1 = \<lparr>RequestedItems = 751, OverpackedItems = 0,
      TotalItems = 750, Packs = [\<lparr>Quantity = 1, Pack = \<lparr>Amount = 500\<rparr>\<rparr>,
                                 \<lparr>Quantity = 1, Pack = \<lparr>Amount = 250\<rparr>\<rparr>]\<rparr>" by simp_all
  with A(2) aa have "o2 = \<lparr>RequestedItems = 751, OverpackedItems = 0, TotalItems = 1000,
      Packs = ?LA\<rparr>" by simp
  with A(3) wa have o3: "o3 = \<lparr>RequestedItems = 751, OverpackedItems = 249, TotalItems = 1000,
      Packs = ?LA\<rparr>" by simp
  with A(4) ma have "o4 = \<lparr>RequestedItems = 751, OverpackedItems = 249, TotalItems = 1000,
      Packs = [\<lparr>Quantity = 1, Pack = \<lparr>Amount = 1000\<rparr>\<rparr>]\<rparr>" by simp
  then have o4: "Packs o4 = [\<lparr>Quantity = 1, Pack = \<lparr>Amount = 1000\<rparr>\<rparr>]" by simp
  from o3 have o3': "Packs o3 = ?LA" by simp
  from A o3' o4 have EA: "\<exists>remaining order1 order2 order3 order4.
      useFullPacks (getPacks (resortPacks ?A)) (emptyOrder 751) = Inr (remaining, order1) \<and>
      addPackForRemainingItems remaining (getPacks (resortPacks ?A)) order1 = Inr order2 \<and>
      order3 = order2\<lparr>OverpackedItems := wrap64 (TotalItems order2 - 751)\<rparr> \<and>
      mergePacks ?r (getPacks (resortPacks ?A)) order3 = Inr order4 \<and>
      Packs order3 = ?LA \<and>
      Packs order4 = [\<lparr>Quantity = 1, Pack = \<lparr>Amount = 1000\<rparr>\<rparr>] \<and>
      sumItems (Packs order4) = sumItems (Packs order3) \<and>
      TotalItems order4 = TotalItems order3"
    by (intro exI [of _ ra] exI [of _ o1] exI [of _ o2] exI [of _ o3] exI [of _ o4]) simp
  have ub: "useFullPacks (getPacks (resortPacks ?B)) (emptyOrder 1001) =
      Inr (1, \<lparr>RequestedItems = 1001, OverpackedItems = 0, TotalItems = 1000,
               Packs = [\<lparr>Quantity = 1, Pack = \<lparr>Amount = 1000\<rparr>\<rparr>]\<rparr>)"
    by code_simp
  have ab: "addPackForRemainingItems 1 (getPacks (resortPacks ?B))
      \<lparr>RequestedItems = 1001, OverpackedItems = 0, TotalItems = 1000,
       Packs = [\<lparr>Quantity = 1, Pack = \<lparr>Amount = 1000\<rparr>\<rparr>]\<rparr> =
      Inr \<lparr>RequestedItems = 1001, OverpackedItems = 0, TotalItems = 1250, Packs = ?LB\<rparr>"
    by code_simp
  have wb: "wrap64 (1250 - 1001) = 249" by (simp add: wrap64_def)
  have gb: "sizeGroups ?LB = [(1000, 1), (250, 1)]" by (simp add: sizeGroups_def)
  have qb: "\<forall>t \<in> set (packs ?B). \<forall>e \<in> set (sizeGroups ?LB). \<not> qualifies (Amount t) e"
    by (simp add: gb storageOf_def qualifies_def go_rem_def go_quo_def)
  from mergePacks_preserves_total [OF b1 b2 b3 r, of 1001]
  obtain rb p1 p2 p3 p4 where
    B: "useFullPacks (getPacks (resortPacks ?B)) (emptyOrder 1001) = Inr (rb, p1)"
      "addPackForRemainingItems rb (getPacks (resortPacks ?B)) p1 = Inr p2"
      "p3 = p2\<lparr>OverpackedItems := wrap64 (TotalItems p2 - 1001)\<rparr>"
      "mergePacks ?r (getPacks (resortPacks ?B)) p3 = Inr p4"
      "(\<forall>t \<in> set (packs ?B). \<forall>e \<in> set (sizeGroups (Packs p3)).
          \<not> qualifies (Amount t) e) \<longrightarrow> p4 = p3" by blast
  from B(1) ub have "rb = 1" and "p1 = \<lparr>RequestedItems = 1001, OverpackedItems = 0,
      TotalItems = 1000, Packs = [\<lparr>Quantity = 1, Pack = \<lparr>Amount = 1000\<rparr>\<rparr>]\<rparr>" by simp_all
  with B(2) ab have "p2 = \<lparr>RequestedItems = 1001, OverpackedItems = 0, TotalItems = 1250,
      Packs = ?LB\<rparr>" by simp
  with B(3) wb have "p3 = \<lparr>RequestedItems = 1001, OverpackedItems = 249, TotalItems = 1250,
      Packs = ?LB\<rparr>" by simp
  then have p3: "Packs p3 = ?LB" by simp
  with qb have q: "\<forall>t \<in> set (packs ?B). \<forall>e \<in> set (sizeGroups (Packs p3)).
      \<not> qualifies (Amount t) e" by simp
  with B(5) have same: "p4 = p3" by blast
  from q have q': "list_all (\<lambda>t. list_all (\<lambda>e. \<not> qualifies (Amount t) e)
      (sizeGroups (Packs p3))) (packs ?B)" by (simp add: list_all_iff)
  from B(1-4) p3 q' same have EB: "\<exists>remaining order1 order2 order3 order4.
      useFullPacks (getPacks (resortPacks ?B)) (emptyOrder 1001) = Inr (remaining, order1) \<and>
      addPackForRemainingItems remaining (getPacks (resortPacks ?B)) order1 = Inr order2 \<and>
      order3 = order2\<lparr>OverpackedItems := wrap64 (TotalItems order2 - 1001)\<rparr> \<and>
      mergePacks ?r (getPacks (resortPacks ?B)) order3 = Inr order4 \<and>
      Packs order3 = ?LB \<and>
      list_all (\<lambda>t. list_all (\<lambda>e. \<not> qualifies (Amount t) e) (sizeGroups (Packs order3)))
        (packs ?B) \<and>
      order4 = order3"
    by (intro exI [of _ rb] exI [of _ p1] exI [of _ p2] exI [of _ p3] exI [of _ p4]) simp
  from a2 a3' r EA b2 b3' EB show ?thesis by simp
qed

end
